theory Spec2Isabelle
  imports Complex_Main
begin

section \<open>Data model\<close>

text \<open>
  The module \<^verbatim>\<open>scipy/linalg/_matfuncs_sqrtm.py\<close> works on numpy arrays. An array is
  modelled by its shape and by the function from index tuples to entries, so that
  \<open>item R [i, j]\<close> reads \<^verbatim>\<open>R[i,j]\<close>. The element type \<open>'a\<close> (numpy's complex or real
  floating point numbers) and the type \<open>'r\<close> of Python floats are kept abstract.
\<close>

record 'a ndarray =
  shape :: "nat list"
  item :: "nat list \<Rightarrow> 'a"

text \<open>
  The exceptions the module can raise. \<open>ValueError\<close> and \<open>Exception\<close> are raised by
  the source itself; \<open>NameError\<close> and \<open>ZeroDivisionError\<close> are raised by the Python
  interpreter; \<open>LinAlgError\<close> stands for whatever a collaborator of the module raises.
\<close>

datatype error =
    ValueError string
  | NameError string
  | ZeroDivisionError string
  | Exception string
  | LinAlgError string

text \<open>
  The arithmetic of the element type and the dense linear algebra of numpy are
  primitives of the module: they are parameters of the model. Every theorem below
  holds for all of them, in particular for IEEE floating point arithmetic.
\<close>

record ('a, 'r) ops =
  f_zero :: "'a"
  f_sqrt :: "'a \<Rightarrow> 'a"
  f_add :: "'a \<Rightarrow> 'a \<Rightarrow> 'a"
  f_sub :: "'a \<Rightarrow> 'a \<Rightarrow> 'a"
  f_div :: "'a \<Rightarrow> 'a \<Rightarrow> 'a"
  f_scale :: "'a \<Rightarrow> 'r \<Rightarrow> 'a"
  f_eq0 :: "'a \<Rightarrow> bool"
  f_vdot :: "'a list \<Rightarrow> 'a list \<Rightarrow> 'a"
  f_herm :: "'a ndarray \<Rightarrow> 'a ndarray"
  r_pow :: "'r \<Rightarrow> nat \<Rightarrow> 'r"
  r_div :: "'r \<Rightarrow> 'r \<Rightarrow> 'r"

text \<open>
  \<open>f_zero\<close> is the entry of \<^verbatim>\<open>np.zeros\<close> and the literal \<^verbatim>\<open>0\<close>; \<open>f_sqrt\<close> is
  \<^verbatim>\<open>np.sqrt\<close> on one entry; \<open>f_add\<close>, \<open>f_sub\<close>, \<open>f_div\<close> are \<^verbatim>\<open>+\<close>, \<^verbatim>\<open>-\<close>, \<^verbatim>\<open>/\<close> on
  entries; \<open>f_scale\<close> multiplies an entry by a Python float; \<open>f_eq0\<close> is \<^verbatim>\<open>== 0\<close>;
  \<open>f_vdot\<close> is \<^verbatim>\<open>dot\<close> of two 1-D arrays; \<open>f_herm\<close> is \<^verbatim>\<open>.H\<close> of a matrix; \<open>r_pow\<close> and
  \<open>r_div\<close> are \<^verbatim>\<open>**\<close> and \<^verbatim>\<open>/\<close> on the floats that \<^verbatim>\<open>norm\<close> returns (numpy floats:
  a division by zero gives a non-finite float and does not raise). Every value that
  the module stores into an array is the result of \<open>f_sqrt\<close>, \<open>f_div\<close> or \<open>f_scale\<close>:
  the conversion to the element type of the array is part of these operations.
\<close>

text \<open>\<^verbatim>\<open>np.zeros((n,n), dtype)\<close>\<close>

definition zeros :: "('a, 'r) ops \<Rightarrow> nat \<Rightarrow> 'a ndarray" where
  "zeros ops n = \<lparr>shape = [n, n], item = (\<lambda>_. f_zero ops)\<rparr>"

text \<open>The two-dimensional slice \<^verbatim>\<open>M[r0:r1, c0:c1]\<close>.\<close>

definition slice2 :: "'a ndarray \<Rightarrow> nat \<Rightarrow> nat \<Rightarrow> nat \<Rightarrow> nat \<Rightarrow> 'a ndarray" where
  "slice2 M r0 r1 c0 c1 =
     \<lparr>shape = [r1 - r0, c1 - c0],
      item = (\<lambda>idx. case idx of [a, b] \<Rightarrow> item M [r0 + a, c0 + b] | _ \<Rightarrow> item M idx)\<rparr>"

text \<open>The one-dimensional slices \<^verbatim>\<open>M[i, a:b]\<close> and \<^verbatim>\<open>M[a:b, j]\<close>.\<close>

definition row_slice :: "'a ndarray \<Rightarrow> nat \<Rightarrow> nat \<Rightarrow> nat \<Rightarrow> 'a list" where
  "row_slice M i a b = map (\<lambda>k. item M [i, k]) [a..<b]"

definition col_slice :: "'a ndarray \<Rightarrow> nat \<Rightarrow> nat \<Rightarrow> nat \<Rightarrow> 'a list" where
  "col_slice M a b j = map (\<lambda>k. item M [k, j]) [a..<b]"

text \<open>
  \<^verbatim>\<open>P.dot(Q)\<close> of two 2-D arrays whose inner dimensions agree: entry \<open>[a, b]\<close> is the
  inner product of row \<open>a\<close> of \<open>P\<close> and column \<open>b\<close> of \<open>Q\<close>.
\<close>

definition dot2 :: "('a, 'r) ops \<Rightarrow> 'a ndarray \<Rightarrow> 'a ndarray \<Rightarrow> 'a ndarray" where
  "dot2 ops P Q =
     \<lparr>shape = [shape P ! 0, shape Q ! 1],
      item = (\<lambda>idx. case idx of
                [a, b] \<Rightarrow> f_vdot ops (row_slice P a 0 (shape P ! 1)) (col_slice Q 0 (shape Q ! 0) b)
              | _ \<Rightarrow> f_zero ops)\<rparr>"

text \<open>Entrywise \<^verbatim>\<open>P - Q\<close> of two arrays of the same shape, and \<^verbatim>\<open>x * scale\<close>.\<close>

definition sub2 :: "('a, 'r) ops \<Rightarrow> 'a ndarray \<Rightarrow> 'a ndarray \<Rightarrow> 'a ndarray" where
  "sub2 ops P Q = \<lparr>shape = shape P, item = (\<lambda>idx. f_sub ops (item P idx) (item Q idx))\<rparr>"

definition scal2 :: "('a, 'r) ops \<Rightarrow> 'a ndarray \<Rightarrow> 'r \<Rightarrow> 'a ndarray" where
  "scal2 ops x sc = \<lparr>shape = shape x, item = (\<lambda>idx. f_scale ops (item x idx) sc)\<rparr>"

section \<open>The block partition of \<^verbatim>\<open>_sqrtm_triu\<close>\<close>

text \<open>
  \<^verbatim>\<open>nblocks = max(n // blocksize, 1)\<close>. The block size is a Python integer; Python's
  floor division is \<open>div\<close> on \<open>int\<close>. Division by zero raises in Python and is a branch
  of \<open>sqrtm_triu_run\<close> below. The result is at least one, hence a natural number.
\<close>

definition nblocks :: "nat \<Rightarrow> int \<Rightarrow> nat" where
  "nblocks n blocksize = nat (max (int n div blocksize) 1)"

text \<open>\<^verbatim>\<open>bsmall, nlarge = divmod(n, nblocks)\<close>, \<^verbatim>\<open>blarge = bsmall + 1\<close>,
  \<^verbatim>\<open>nsmall = nblocks - nlarge\<close>. All four are non-negative, and \<open>nlarge\<close> is below
  \<open>nblocks\<close>, so the subtraction on \<open>nat\<close> does not truncate.\<close>

definition bsmall :: "nat \<Rightarrow> int \<Rightarrow> nat" where
  "bsmall n blocksize = n div nblocks n blocksize"

definition nlarge :: "nat \<Rightarrow> int \<Rightarrow> nat" where
  "nlarge n blocksize = n mod nblocks n blocksize"

definition blarge :: "nat \<Rightarrow> int \<Rightarrow> nat" where
  "blarge n blocksize = bsmall n blocksize + 1"

definition nsmall :: "nat \<Rightarrow> int \<Rightarrow> nat" where
  "nsmall n blocksize = nblocks n blocksize - nlarge n blocksize"

text \<open>The test of line 61: \<open>True\<close> when the exception is raised.\<close>

definition inconsistent :: "nat \<Rightarrow> int \<Rightarrow> bool" where
  "inconsistent n blocksize \<longleftrightarrow>
     nsmall n blocksize * bsmall n blocksize + nlarge n blocksize * blarge n blocksize \<noteq> n"

text \<open>
  The inner loop \<^verbatim>\<open>for i in range(count): start_stop_pairs.append((start, start + size));
  start += size\<close>, on the pair of the list and of \<^verbatim>\<open>start\<close> (\<open>sz\<close> is the source's
  \<^verbatim>\<open>size\<close>).
\<close>

fun append_blocks :: "nat \<Rightarrow> nat \<Rightarrow> (nat \<times> nat) list \<times> nat \<Rightarrow> (nat \<times> nat) list \<times> nat" where
  "append_blocks 0 sz (ps, start) = (ps, start)"
| "append_blocks (Suc count) sz (ps, start) =
     append_blocks count sz (ps @ [(start, start + sz)], start + sz)"

text \<open>The outer loop over \<^verbatim>\<open>((nsmall, bsmall), (nlarge, blarge))\<close>.\<close>

definition start_stop_pairs :: "nat \<Rightarrow> int \<Rightarrow> (nat \<times> nat) list" where
  "start_stop_pairs n blocksize =
     fst (append_blocks (nlarge n blocksize) (blarge n blocksize)
           (append_blocks (nsmall n blocksize) (bsmall n blocksize) ([], 0)))"

section \<open>The engine \<^verbatim>\<open>_sqrtm_triu\<close>\<close>

text \<open>
  The accumulator \<^verbatim>\<open>R\<close> is mutated in place. The state of the engine is \<^verbatim>\<open>R\<close>
  together with two histories that the source does not keep and that do not influence
  it: the index pairs of the entries of \<^verbatim>\<open>R\<close> assigned so far, in order, and the block
  pairs for which \<^verbatim>\<open>ztrsyl\<close> has been called so far, in order.
\<close>

record 'a st =
  arr :: "'a ndarray"
  writes :: "(nat \<times> nat) list"
  solves :: "(nat \<times> nat) list"

text \<open>One assignment \<^verbatim>\<open>R[i,j] = v\<close>.\<close>

definition put :: "nat \<Rightarrow> nat \<Rightarrow> 'a \<Rightarrow> 'a st \<Rightarrow> 'a st" where
  "put i j v s =
     s\<lparr>arr := (arr s)\<lparr>item := (item (arr s))([i, j] := v)\<rparr>, writes := writes s @ [(i, j)]\<rparr>"

text \<open>Line 51: \<^verbatim>\<open>R[np.diag_indices(n)] = np.sqrt(np.diag(T))\<close>.\<close>

definition seed_diag :: "('a, 'r) ops \<Rightarrow> 'a ndarray \<Rightarrow> nat \<Rightarrow> 'a st \<Rightarrow> 'a st" where
  "seed_diag ops T n s = fold (\<lambda>i. put i i (f_sqrt ops (item T [i, i]))) [0..<n] s"

text \<open>
  Lines 76 to 78: \<^verbatim>\<open>s = 0; if j - i > 1: s = R[i, i+1:j].dot(R[i+1:j, j])\<close>.
  It is only evaluated for \<open>i < j\<close>, where the subtraction on \<open>nat\<close> is Python's.
\<close>

definition corr :: "('a, 'r) ops \<Rightarrow> 'a ndarray \<Rightarrow> nat \<Rightarrow> nat \<Rightarrow> 'a" where
  "corr ops R i j =
     (if j - i > 1 then f_vdot ops (row_slice R i (i + 1) j) (col_slice R (i + 1) j j)
      else f_zero ops)"

text \<open>Line 79: the value \<^verbatim>\<open>(T[i,j] - s)/(R[i,i] + R[j,j])\<close>.\<close>

definition entry_val :: "('a, 'r) ops \<Rightarrow> 'a ndarray \<Rightarrow> 'a ndarray \<Rightarrow> nat \<Rightarrow> nat \<Rightarrow> 'a" where
  "entry_val ops T R i j =
     f_div ops (f_sub ops (item T [i, j]) (corr ops R i j))
               (f_add ops (item R [i, i]) (item R [j, j]))"

text \<open>The body of the innermost loop, lines 76 to 79.\<close>

definition within_entry :: "('a, 'r) ops \<Rightarrow> 'a ndarray \<Rightarrow> nat \<Rightarrow> nat \<Rightarrow> 'a st \<Rightarrow> 'a st" where
  "within_entry ops T j i s = put i j (entry_val ops T (arr s) i j) s"

text \<open>
  \<^verbatim>\<open>for i in range(j-1, start-1, -1)\<close>: the rows \<open>j - 1\<close> down to \<open>start\<close>, none when
  \<open>j = start\<close>.
\<close>

definition within_col :: "('a, 'r) ops \<Rightarrow> 'a ndarray \<Rightarrow> nat \<Rightarrow> nat \<Rightarrow> 'a st \<Rightarrow> 'a st" where
  "within_col ops T start j s = fold (within_entry ops T j) (rev [start..<j]) s"

text \<open>\<^verbatim>\<open>for j in range(start, stop)\<close>.\<close>

definition within_block :: "('a, 'r) ops \<Rightarrow> 'a ndarray \<Rightarrow> nat \<times> nat \<Rightarrow> 'a st \<Rightarrow> 'a st" where
  "within_block ops T p s = fold (within_col ops T (fst p)) [fst p..<snd p] s"

text \<open>\<^verbatim>\<open>for start, stop in start_stop_pairs\<close>.\<close>

definition within_blocks :: "('a, 'r) ops \<Rightarrow> 'a ndarray \<Rightarrow> (nat \<times> nat) list \<Rightarrow> 'a st \<Rightarrow> 'a st" where
  "within_blocks ops T pairs s = fold (within_block ops T) pairs s"

text \<open>A loop whose body may raise: the first exception ends it.\<close>

fun fold_err :: "('x \<Rightarrow> 's \<Rightarrow> error + 's) \<Rightarrow> 'x list \<Rightarrow> 's \<Rightarrow> error + 's" where
  "fold_err f [] s = Inr s"
| "fold_err f (x # xs) s = (case f x s of Inl e \<Rightarrow> Inl e | Inr s' \<Rightarrow> fold_err f xs s')"

text \<open>
  Lines 86 to 89: the right-hand side \<^verbatim>\<open>S\<close> for the blocks \<open>(istart, istop)\<close> and
  \<open>(jstart, jstop)\<close>; \<open>far\<close> is the test \<^verbatim>\<open>j - i > 1\<close> on the block indices. The two
  factors of the product have the inner dimension \<open>jstart - istop\<close>.
\<close>

definition rhs_block ::
  "('a, 'r) ops \<Rightarrow> 'a ndarray \<Rightarrow> 'a ndarray \<Rightarrow> bool \<Rightarrow> nat \<times> nat \<Rightarrow> nat \<times> nat \<Rightarrow> 'a ndarray" where
  "rhs_block ops T R far bi bj =
     (let S = slice2 T (fst bi) (snd bi) (fst bj) (snd bj)
      in if far
         then sub2 ops S (dot2 ops (slice2 R (fst bi) (snd bi) (snd bi) (fst bj))
                                   (slice2 R (snd bi) (fst bj) (fst bj) (snd bj)))
         else S)"

text \<open>
  Line 97, the slice assignment \<^verbatim>\<open>R[r0:r1, c0:c1] = v\<close>. numpy raises \<open>ValueError\<close>
  when \<open>v\<close> cannot be broadcast to the shape of the slice. The LAPACK wrapper returns
  its third argument overwritten, an array of the shape of the slice; the broadcasting
  of an array of another shape with an axis of length one is not modelled and is
  taken as a failure.
\<close>

definition assign_block :: "nat \<Rightarrow> nat \<Rightarrow> nat \<Rightarrow> nat \<Rightarrow> 'a ndarray \<Rightarrow> 'a st \<Rightarrow> error + 'a st" where
  "assign_block r0 r1 c0 c1 v s =
     (if shape v = [r1 - r0, c1 - c0]
      then Inr (fold (\<lambda>a. fold (\<lambda>b. put a b (item v [a - r0, b - c0])) [c0..<c1]) [r0..<r1] s)
      else Inl (ValueError ''could not broadcast input array''))"

text \<open>
  The body of the inner loop of the between-block phase, lines 85 to 97. The solver
  \<^verbatim>\<open>ztrsyl\<close> is a parameter: it returns \<^verbatim>\<open>(x, scale, info)\<close> or raises.
\<close>

type_synonym ('a, 'r) solver =
  "'a ndarray \<Rightarrow> 'a ndarray \<Rightarrow> 'a ndarray \<Rightarrow> error + ('a ndarray \<times> 'r \<times> int)"

definition between_pair ::
  "('a, 'r) ops \<Rightarrow> ('a, 'r) solver \<Rightarrow> 'a ndarray \<Rightarrow> (nat \<times> nat) list \<Rightarrow> nat \<Rightarrow> nat \<Rightarrow>
   'a st \<Rightarrow> error + 'a st" where
  "between_pair ops ztrsyl T pairs j i s =
     (let bj = pairs ! j; bi = pairs ! i;
          S = rhs_block ops T (arr s) (j - i > 1) bi bj;
          Rii = slice2 (arr s) (fst bi) (snd bi) (fst bi) (snd bi);
          Rjj = slice2 (arr s) (fst bj) (snd bj) (fst bj) (snd bj)
      in case ztrsyl Rii Rjj S of
           Inl e \<Rightarrow> Inl e
         | Inr (x, scale, info) \<Rightarrow>
             assign_block (fst bi) (snd bi) (fst bj) (snd bj) (scal2 ops x scale)
               (s\<lparr>solves := solves s @ [(i, j)]\<rparr>))"

text \<open>\<^verbatim>\<open>for i in range(j-1, -1, -1)\<close>, then \<^verbatim>\<open>for j in range(nblocks)\<close>.\<close>

definition between_col ::
  "('a, 'r) ops \<Rightarrow> ('a, 'r) solver \<Rightarrow> 'a ndarray \<Rightarrow> (nat \<times> nat) list \<Rightarrow> nat \<Rightarrow>
   'a st \<Rightarrow> error + 'a st" where
  "between_col ops ztrsyl T pairs j s =
     fold_err (between_pair ops ztrsyl T pairs j) (rev [0..<j]) s"

definition between_blocks ::
  "('a, 'r) ops \<Rightarrow> ('a, 'r) solver \<Rightarrow> 'a ndarray \<Rightarrow> (nat \<times> nat) list \<Rightarrow> nat \<Rightarrow>
   'a st \<Rightarrow> error + 'a st" where
  "between_blocks ops ztrsyl T pairs nb s =
     fold_err (between_col ops ztrsyl T pairs) [0..<nb] s"

text \<open>
  The engine, with its histories. \<^verbatim>\<open>n, n = T.shape\<close> raises \<open>ValueError\<close> unless the
  shape has two entries, and leaves the second one in \<open>n\<close>. The docstring takes \<open>T\<close> of
  shape \<open>(N, N)\<close>, and so does every theorem below. A \<open>T\<close> with fewer rows than
  columns is outside the model: there the source raises, on line 51 when the shorter
  diagonal cannot be assigned to the \<open>n\<close> diagonal entries, or later when a read of
  \<open>T\<close> is out of range. \<^verbatim>\<open>n // blocksize\<close> raises for the block size zero.
\<close>

definition sqrtm_triu_run ::
  "('a, 'r) ops \<Rightarrow> ('a, 'r) solver \<Rightarrow> 'a ndarray \<Rightarrow> int \<Rightarrow> error + 'a st" where
  "sqrtm_triu_run ops ztrsyl T blocksize =
     (case shape T of
        [m, n] \<Rightarrow>
          (let s1 = seed_diag ops T n \<lparr>arr = zeros ops n, writes = [], solves = []\<rparr>
           in if blocksize = 0
              then Inl (ZeroDivisionError ''integer division or modulo by zero'')
              else if inconsistent n blocksize
              then Inl (Exception ''internal inconsistency'')
              else between_blocks ops ztrsyl T (start_stop_pairs n blocksize)
                     (nblocks n blocksize)
                     (within_blocks ops T (start_stop_pairs n blocksize) s1))
      | _ \<Rightarrow> Inl (ValueError ''cannot unpack the shape''))"

text \<open>The engine as the source has it: it returns \<^verbatim>\<open>R\<close>.\<close>

definition sqrtm_triu ::
  "('a, 'r) ops \<Rightarrow> ('a, 'r) solver \<Rightarrow> 'a ndarray \<Rightarrow> int \<Rightarrow> error + 'a ndarray" where
  "sqrtm_triu ops ztrsyl T blocksize =
     (case sqrtm_triu_run ops ztrsyl T blocksize of Inl e \<Rightarrow> Inl e | Inr s \<Rightarrow> Inr (arr s))"

section \<open>The driver \<^verbatim>\<open>sqrtm\<close>\<close>

text \<open>
  The collaborators that the module imports from the rest of the package are
  parameters of the model: \<open>factorise\<close> is the factorisation that \<^verbatim>\<open>schur\<close> computes for
  a square matrix and \<^verbatim>\<open>rsf2csf\<close> its conversion, both return two arrays or raise;
  \<^verbatim>\<open>ztrsyl\<close> is the solver of the engine, \<^verbatim>\<open>all_mat\<close> turns its two arguments into
  matrices, and \<open>norm_fro\<close> is \<^verbatim>\<open>norm(., 'fro')\<close>, taken to return a float (the
  theorem on the error estimate is about the calls of \<^verbatim>\<open>sqrtm\<close> that return).
\<close>

record ('a, 'r) collab =
  factorise :: "'a ndarray \<Rightarrow> error + ('a ndarray \<times> 'a ndarray)"
  rsf2csf :: "'a ndarray \<Rightarrow> 'a ndarray \<Rightarrow> error + ('a ndarray \<times> 'a ndarray)"
  ztrsyl :: "('a, 'r) solver"
  all_mat :: "'a ndarray \<Rightarrow> 'a ndarray \<Rightarrow> 'a ndarray \<times> 'a ndarray"
  norm_fro :: "'a ndarray \<Rightarrow> 'r"

text \<open>
  Modelled from the spec: the check that \<^verbatim>\<open>schur\<close> makes of its argument before it
  computes anything. \<^verbatim>\<open>schur\<close> is defined in \<^verbatim>\<open>scipy/linalg/decomp_schur.py\<close>, which
  is not among the sources at hand. The spec has an input that is not 2-D or not square
  rejected with an invalid-argument condition, reported immediately to the caller
  before any computation (sections 4.2 and 7), and \<^verbatim>\<open>sqrtm\<close> has no test of its own for
  a square shape: the rejection is the first act of \<^verbatim>\<open>schur\<close>, with \<open>ValueError\<close>. On
  a square 2-D array \<^verbatim>\<open>schur\<close> is the factorisation.
\<close>

definition schur ::
  "('a, 'r) collab \<Rightarrow> 'a ndarray \<Rightarrow> error + ('a ndarray \<times> 'a ndarray)" where
  "schur C A =
     (if length (shape A) = 2 \<and> shape A ! 0 = shape A ! 1 then factorise C A
      else Inl (ValueError ''expected square matrix''))"

text \<open>
  The names a function body of the module can use: the local names of \<^verbatim>\<open>sqrtm\<close>,
  the names bound at module level by lines 7 to 18 and by the two \<^verbatim>\<open>def\<close>s, and the
  built-in functions and exceptions of Python. A name outside them raises
  \<open>NameError\<close> when it is evaluated.
\<close>

definition sqrtm_locals :: "string list" where
  "sqrtm_locals =
     [''A'', ''disp'', ''blocksize'', ''T'', ''Z'', ''R'', ''X'', ''nzeig'', ''arg2'']"

definition module_globals :: "string list" where
  "module_globals =
     [''division'', ''print_function'', ''absolute_import'', ''__all__'', ''np'', ''norm'',
      ''ztrsyl'', ''all_mat'', ''schur'', ''rsf2csf'', ''_sqrtm_triu'', ''sqrtm'']"

definition python_builtins :: "string list" where
  "python_builtins =
     [''abs'', ''all'', ''any'', ''bin'', ''bool'', ''bytearray'', ''bytes'', ''callable'',
      ''chr'', ''classmethod'', ''compile'', ''complex'', ''delattr'', ''dict'', ''dir'',
      ''divmod'', ''enumerate'', ''eval'', ''filter'', ''float'', ''format'', ''frozenset'',
      ''getattr'', ''globals'', ''hasattr'', ''hash'', ''help'', ''hex'', ''id'', ''input'',
      ''int'', ''isinstance'', ''issubclass'', ''iter'', ''len'', ''list'', ''locals'',
      ''map'', ''max'', ''memoryview'', ''min'', ''next'', ''object'', ''oct'', ''open'',
      ''ord'', ''pow'', ''print'', ''property'', ''range'', ''repr'', ''reversed'',
      ''round'', ''set'', ''setattr'', ''slice'', ''sorted'', ''staticmethod'', ''str'',
      ''sum'', ''super'', ''tuple'', ''type'', ''vars'', ''zip'', ''__import__'',
      ''Exception'', ''ValueError'', ''True'', ''False'', ''None'']"

definition lookup_name :: "string \<Rightarrow> error + unit" where
  "lookup_name nm =
     (if nm \<in> set (sqrtm_locals @ module_globals @ python_builtins)
      then Inr () else Inl (NameError nm))"

text \<open>\<^verbatim>\<open>np.diag(T)\<close> of a 2-D array, as numpy defines it.\<close>

definition diag_of :: "'a ndarray \<Rightarrow> 'a list" where
  "diag_of T = map (\<lambda>i. item T [i, i]) [0..<min (shape T ! 0) (shape T ! 1)]"

text \<open>
  The product \<^verbatim>\<open>*\<close> of two numpy matrices raises \<open>ValueError\<close> when the inner
  dimensions differ. The difference of two arrays raises it when the shapes cannot be
  broadcast together; broadcasting along an axis of length one is not modelled and is
  taken as a failure.
\<close>

definition matmul :: "('a, 'r) ops \<Rightarrow> 'a ndarray \<Rightarrow> 'a ndarray \<Rightarrow> error + 'a ndarray" where
  "matmul ops P Q =
     (if length (shape P) = 2 \<and> length (shape Q) = 2 \<and> shape P ! 1 = shape Q ! 0
      then Inr (dot2 ops P Q) else Inl (ValueError ''shapes not aligned''))"

definition msub :: "('a, 'r) ops \<Rightarrow> 'a ndarray \<Rightarrow> 'a ndarray \<Rightarrow> error + 'a ndarray" where
  "msub ops P Q =
     (if shape P = shape Q then Inr (sub2 ops P Q)
      else Inl (ValueError ''operands could not be broadcast together''))"

text \<open>
  What a call of \<^verbatim>\<open>sqrtm\<close> that returns has done: the lines it printed, the array
  \<^verbatim>\<open>X.A\<close>, and the second component of the pair when \<^verbatim>\<open>disp\<close> is false.
\<close>

record ('a, 'r) outcome =
  printed :: "string list"
  result :: "'a ndarray"
  errest :: "'r option"

text \<open>Lines 146 to 153, after \<^verbatim>\<open>X\<close> is there.\<close>

definition report ::
  "('a, 'r) ops \<Rightarrow> ('a, 'r) collab \<Rightarrow> 'a ndarray \<Rightarrow> 'a ndarray \<Rightarrow> 'a ndarray \<Rightarrow> bool \<Rightarrow>
   error + ('a, 'r) outcome" where
  "report ops C A T X disp =
     (if disp then
        (case lookup_name ''diag'' of
           Inl e \<Rightarrow> Inl e
         | Inr _ \<Rightarrow>
             (let nzeig = list_ex (f_eq0 ops) (diag_of T)
              in Inr \<lparr>printed = (if nzeig
                                 then [''Matrix is singular and may not have a square root.'']
                                 else []),
                      result = X, errest = None\<rparr>))
      else
        (case matmul ops X X of
           Inl e \<Rightarrow> Inl e
         | Inr XX \<Rightarrow>
             (case msub ops XX A of
                Inl e \<Rightarrow> Inl e
              | Inr E \<Rightarrow>
                  Inr \<lparr>printed = [], result = X,
                       errest = Some (r_div ops (r_pow ops (norm_fro C E) 2) (norm_fro C A))\<rparr>)))"

text \<open>The two checks of lines 136 to 139.\<close>

definition validate :: "'a ndarray \<Rightarrow> int \<Rightarrow> error option" where
  "validate A blocksize =
     (if length (shape A) \<noteq> 2 then Some (ValueError ''Non-matrix input to matrix function.'')
      else if blocksize < 1 then Some (ValueError ''The blocksize should be at least 1.'')
      else None)"

text \<open>Lines 140 to 144 and the report.\<close>

definition compute ::
  "('a, 'r) ops \<Rightarrow> ('a, 'r) collab \<Rightarrow> 'a ndarray \<Rightarrow> bool \<Rightarrow> int \<Rightarrow> error + ('a, 'r) outcome" where
  "compute ops C A disp blocksize =
     (case schur C A of
        Inl e \<Rightarrow> Inl e
      | Inr (T0, Z0) \<Rightarrow>
     (case rsf2csf C T0 Z0 of
        Inl e \<Rightarrow> Inl e
      | Inr (T, Z1) \<Rightarrow>
     (case sqrtm_triu ops (ztrsyl C) T blocksize of
        Inl e \<Rightarrow> Inl e
      | Inr R0 \<Rightarrow>
     (case all_mat C R0 Z1 of (R, Z) \<Rightarrow>
     (case matmul ops Z R of
        Inl e \<Rightarrow> Inl e
      | Inr ZR \<Rightarrow>
     (case matmul ops ZR (f_herm ops Z) of
        Inl e \<Rightarrow> Inl e
      | Inr X \<Rightarrow> report ops C A T X disp))))))"

definition sqrtm ::
  "('a, 'r) ops \<Rightarrow> ('a, 'r) collab \<Rightarrow> 'a ndarray \<Rightarrow> bool \<Rightarrow> int \<Rightarrow> error + ('a, 'r) outcome" where
  "sqrtm ops C A disp blocksize =
     (case validate A blocksize of
        Some e \<Rightarrow> Inl e
      | None \<Rightarrow> compute ops C A disp blocksize)"

section \<open>Closed form of the partition\<close>

text \<open>
  The index at which block \<open>k\<close> starts: \<open>k\<close> blocks of the small size, and one more
  entry for each large block before it.
\<close>

definition offset :: "nat \<Rightarrow> int \<Rightarrow> nat \<Rightarrow> nat" where
  "offset n bs k = k * bsmall n bs + (k - nsmall n bs)"

section \<open>The order of the assignments\<close>

text \<open>
  The lists below name, in the order of the loops, the entries that each phase assigns:
  the diagonal seeding, the within-block phase of one block and of all blocks, the
  slice assignment of one pair of blocks, and the pairs of blocks of the between-block
  phase. \<open>wcell\<close> is one assignment whose value may depend on the accumulator;
  \<open>col_major\<close> is the order in which the within-block phase visits the entries;
  \<open>seeded\<close> and \<open>within_phase\<close> are the states of the engine after line 51 and
  after line 79.
\<close>

definition cell_idx :: "nat \<times> nat \<Rightarrow> nat list" where
  "cell_idx c = [fst c, snd c]"

definition wcell :: "(nat \<times> nat \<Rightarrow> 'a ndarray \<Rightarrow> 'a) \<Rightarrow> nat \<times> nat \<Rightarrow> 'a st \<Rightarrow> 'a st" where
  "wcell G c s = put (fst c) (snd c) (G c (arr s)) s"

definition diag_cells :: "nat \<Rightarrow> (nat \<times> nat) list" where
  "diag_cells n = map (\<lambda>i. (i, i)) [0..<n]"

definition col_cells :: "nat \<Rightarrow> nat \<Rightarrow> (nat \<times> nat) list" where
  "col_cells start j = map (\<lambda>i. (i, j)) (rev [start..<j])"

definition tri_cells :: "nat \<times> nat \<Rightarrow> (nat \<times> nat) list" where
  "tri_cells p = concat (map (col_cells (fst p)) [fst p..<snd p])"

definition within_order :: "(nat \<times> nat) list \<Rightarrow> (nat \<times> nat) list" where
  "within_order pairs = concat (map tri_cells pairs)"

definition block_cells :: "nat \<times> nat \<Rightarrow> nat \<times> nat \<Rightarrow> (nat \<times> nat) list" where
  "block_cells bi bj = concat (map (\<lambda>a. map (\<lambda>b. (a, b)) [fst bj..<snd bj]) [fst bi..<snd bi])"

definition between_order :: "nat \<Rightarrow> (nat \<times> nat) list" where
  "between_order nb = concat (map (\<lambda>j. map (\<lambda>i. (i, j)) (rev [0..<j])) [0..<nb])"

definition col_major :: "nat \<times> nat \<Rightarrow> nat \<times> nat \<Rightarrow> bool" where
  "col_major c c' \<longleftrightarrow> snd c < snd c' \<or> (snd c = snd c' \<and> fst c' < fst c)"

definition between_cells :: "(nat \<times> nat) list \<Rightarrow> nat \<Rightarrow> (nat \<times> nat) list" where
  "between_cells pairs nb =
     concat (map (\<lambda>j. concat (map (\<lambda>i. block_cells (pairs ! i) (pairs ! j)) (rev [0..<j])))
               [0..<nb])"

definition seeded :: "('a, 'r) ops \<Rightarrow> 'a ndarray \<Rightarrow> nat \<Rightarrow> 'a st" where
  "seeded ops T n = seed_diag ops T n \<lparr>arr = zeros ops n, writes = [], solves = []\<rparr>"

definition within_phase :: "('a, 'r) ops \<Rightarrow> 'a ndarray \<Rightarrow> nat \<Rightarrow> int \<Rightarrow> 'a st" where
  "within_phase ops T n blocksize =
     within_blocks ops T (start_stop_pairs n blocksize) (seeded ops T n)"

definition write_order :: "nat \<Rightarrow> int \<Rightarrow> (nat \<times> nat) list" where
  "write_order n bs =
     diag_cells n @ within_order (start_stop_pairs n bs)
       @ between_cells (start_stop_pairs n bs) (nblocks n bs)"

section \<open>Exact arithmetic for the examples\<close>

text \<open>
  The examples run the model on real numbers. \<open>exact_ops\<close> is exact arithmetic;
  \<open>rounded_ops\<close> differs from it by an inexact square root, \<open>sqrt 2\<close> rounded to
  \<open>1.4\<close>. \<open>solve_scalar\<close> solves the equation \<open>Rii x + x Rjj = S\<close> for blocks of size
  one and returns the scale \<open>1\<close>. In \<open>triangular_collab\<close> the factorisation of an upper
  triangular \<open>A\<close> is \<open>A\<close> itself with the identity, and the norm is the Frobenius norm.
  \<open>R1\<close> and \<open>X1\<close> are the arrays \<^verbatim>\<open>R\<close> and \<^verbatim>\<open>X\<close> of the call on \<open>A1x1\<close>.
\<close>

definition exact_ops :: "(real, real) ops" where
  "exact_ops =
     \<lparr>f_zero = 0, f_sqrt = sqrt, f_add = (+), f_sub = (-), f_div = (/), f_scale = (*),
      f_eq0 = (\<lambda>x. x = 0),
      f_vdot = (\<lambda>xs ys. sum_list (map2 (*) xs ys)),
      f_herm = (\<lambda>M. \<lparr>shape = rev (shape M), item = (\<lambda>idx. item M (rev idx))\<rparr>),
      r_pow = (^), r_div = (/)\<rparr>"

definition solve_scalar :: "(real, real) solver" where
  "solve_scalar Rii Rjj S =
     Inr (\<lparr>shape = shape S, item = (\<lambda>idx. item S idx / (item Rii [0, 0] + item Rjj [0, 0]))\<rparr>,
          1, 0)"

definition T2 :: "real ndarray" where
  "T2 = \<lparr>shape = [2, 2],
          item = (\<lambda>idx. if idx = [0, 0] then 4 else if idx = [0, 1] then 3
                        else if idx = [1, 1] then 9 else 0)\<rparr>"

definition T3 :: "real ndarray" where
  "T3 = \<lparr>shape = [3, 3],
          item = (\<lambda>idx. if idx = [0, 0] then 1 else if idx = [0, 1] then 2
                        else if idx = [0, 2] then 3 else if idx = [1, 1] then 4
                        else if idx = [1, 2] then 5 else if idx = [2, 2] then 16 else 0)\<rparr>"

definition eye :: "nat \<Rightarrow> real ndarray" where
  "eye n = \<lparr>shape = [n, n],
            item = (\<lambda>idx. case idx of [i, j] \<Rightarrow> if i = j then 1 else 0 | _ \<Rightarrow> 0)\<rparr>"

definition triangular_collab :: "(real, real) collab" where
  "triangular_collab =
     \<lparr>factorise = (\<lambda>A. Inr (A, eye (shape A ! 0))),
      rsf2csf = (\<lambda>T Z. Inr (T, Z)),
      ztrsyl = solve_scalar,
      all_mat = (\<lambda>R Z. (R, Z)),
      norm_fro = (\<lambda>M. sqrt (sum_list (map (\<lambda>i. sum_list (map (\<lambda>j. (item M [i, j])\<^sup>2)
                                                          [0..<shape M ! 1]))
                                       [0..<shape M ! 0])))\<rparr>"

definition rounded_ops :: "(real, real) ops" where
  "rounded_ops = exact_ops\<lparr>f_sqrt := (\<lambda>x. if x = 2 then 14 / 10 else sqrt x)\<rparr>"

definition A1x1 :: "real ndarray" where
  "A1x1 = \<lparr>shape = [1, 1], item = (\<lambda>idx. if idx = [0, 0] then 2 else 0)\<rparr>"

definition A2x3 :: "real ndarray" where
  "A2x3 = \<lparr>shape = [2, 3], item = (\<lambda>idx. 1)\<rparr>"

definition A1d :: "real ndarray" where
  "A1d = \<lparr>shape = [3], item = (\<lambda>idx. 1)\<rparr>"

definition R1 :: "real ndarray" where
  "R1 = arr (within_phase rounded_ops A1x1 (Suc 0) 64)"

definition X1 :: "real ndarray" where
  "X1 = dot2 rounded_ops (dot2 rounded_ops (eye (Suc 0)) R1) (f_herm rounded_ops (eye (Suc 0)))"

definition T0 :: "real ndarray" where
  "T0 = \<lparr>shape = [0, 0], item = (\<lambda>idx. 0)\<rparr>"

section \<open>Lemmas on the partition\<close>

lemma nblocks_pos: "1 \<le> nblocks n bs"
  by (simp add: nblocks_def)

lemma nblocks_nat: "1 \<le> bs \<Longrightarrow> nblocks n bs = max (n div nat bs) 1"
proof -
  assume "1 \<le> bs"
  then have "int n div bs = int (n div nat bs)"
    by (simp add: zdiv_int)
  then show ?thesis
    by (simp add: nblocks_def max_def)
qed

lemma nlarge_less: "nlarge n bs < nblocks n bs"
  using nblocks_pos [of n bs] by (simp add: nlarge_def)

lemma partition_total:
  "nsmall n bs * bsmall n bs + nlarge n bs * blarge n bs = n"
proof -
  have "nsmall n bs * bsmall n bs + nlarge n bs * blarge n bs
          = (nsmall n bs + nlarge n bs) * bsmall n bs + nlarge n bs"
    by (simp add: blarge_def algebra_simps)
  also have "nsmall n bs + nlarge n bs = nblocks n bs"
    using nlarge_less [of n bs] by (simp add: nsmall_def)
  also have "nblocks n bs * bsmall n bs + nlarge n bs = n"
    by (simp add: bsmall_def nlarge_def)
  finally show ?thesis .
qed

lemma append_blocks_eq:
  "append_blocks c sz (ps, st) =
     (ps @ map (\<lambda>k. (st + k * sz, st + Suc k * sz)) [0..<c], st + c * sz)"
proof (induction c arbitrary: ps st)
  case 0
  show ?case by simp
next
  case (Suc c)
  have "map (\<lambda>k. (st + k * sz, st + Suc k * sz)) [0..<Suc c]
          = (st, st + sz) # map (\<lambda>k. (st + sz + k * sz, st + sz + Suc k * sz)) [0..<c]"
    by (simp add: upt_conv_Cons map_Suc_upt [symmetric] del: upt_Suc) 
  then show ?case using Suc.IH by simp
qed

lemma nsmall_plus_nlarge: "nsmall n bs + nlarge n bs = nblocks n bs"
  using nlarge_less [of n bs] by (simp add: nsmall_def)

lemma start_stop_pairs_eq:
  "start_stop_pairs n bs = map (\<lambda>k. (offset n bs k, offset n bs (Suc k))) [0..<nblocks n bs]"
proof (rule nth_equalityI)
  show "length (start_stop_pairs n bs)
          = length (map (\<lambda>k. (offset n bs k, offset n bs (Suc k))) [0..<nblocks n bs])"
    by (simp add: start_stop_pairs_def append_blocks_eq nsmall_plus_nlarge)
next
  fix k
  assume "k < length (start_stop_pairs n bs)"
  then have k: "k < nsmall n bs + nlarge n bs"
    by (simp add: start_stop_pairs_def append_blocks_eq)
  then have k': "k < nblocks n bs"
    by (simp add: nsmall_plus_nlarge)
  show "start_stop_pairs n bs ! k
          = map (\<lambda>k. (offset n bs k, offset n bs (Suc k))) [0..<nblocks n bs] ! k"
  proof (cases "k < nsmall n bs")
    case True
    then show ?thesis using k'
      by (simp add: start_stop_pairs_def append_blocks_eq nth_append offset_def)
  next
    case False
    then obtain d where d: "k = nsmall n bs + d"
      using le_Suc_ex [of "nsmall n bs" k] by auto
    with k k' show ?thesis
      by (simp add: start_stop_pairs_def append_blocks_eq nth_append offset_def blarge_def
          algebra_simps)
  qed
qed

lemma offset_0: "offset n bs 0 = 0"
  by (simp add: offset_def)

lemma offset_last: "offset n bs (nblocks n bs) = n"
proof -
  have "nblocks n bs - nsmall n bs = nlarge n bs"
    using nsmall_plus_nlarge [of n bs] by simp
  then show ?thesis
    by (simp add: offset_def bsmall_def nlarge_def)
qed

lemma offset_Suc:
  "offset n bs (Suc k) = offset n bs k + (if k < nsmall n bs then bsmall n bs else blarge n bs)"
proof (cases "k < nsmall n bs")
  case True
  then show ?thesis by (simp add: offset_def)
next
  case False
  then obtain d where d: "k = nsmall n bs + d"
    using le_Suc_ex [of "nsmall n bs" k] by auto
  show ?thesis
    by (simp add: d offset_def blarge_def)
qed

lemma offset_mono: "k \<le> l \<Longrightarrow> offset n bs k \<le> offset n bs l"
  by (simp add: offset_def add_mono diff_le_mono)

lemma pairs_nth:
  "k < nblocks n bs \<Longrightarrow>
     start_stop_pairs n bs ! k = (offset n bs k, offset n bs (Suc k))"
  by (simp add: start_stop_pairs_eq)

lemma length_pairs: "length (start_stop_pairs n bs) = nblocks n bs"
  by (simp add: start_stop_pairs_eq)

lemma offset_cover:
  "x < offset n bs m \<Longrightarrow> \<exists>k<m. offset n bs k \<le> x \<and> x < offset n bs (Suc k)"
proof (induction m)
  case 0
  then show ?case by (simp add: offset_0)
next
  case (Suc m)
  show ?case
  proof (cases "x < offset n bs m")
    case True
    with Suc.IH obtain k where "k < m" "offset n bs k \<le> x" "x < offset n bs (Suc k)"
      by blast
    then show ?thesis using less_Suc_eq by blast
  next
    case False
    with Suc.prems show ?thesis by auto
  qed
qed

lemma offset_unique:
  assumes "offset n bs k \<le> x" "x < offset n bs (Suc k)"
    and "offset n bs l \<le> x" "x < offset n bs (Suc l)"
  shows "k = l"
proof (rule ccontr)
  assume "k \<noteq> l"
  then consider "Suc k \<le> l" | "Suc l \<le> k" by linarith
  then show False
  proof cases
    case 1
    from offset_mono [OF this, of n bs] assms show False by linarith
  next
    case 2
    from offset_mono [OF this, of n bs] assms show False by linarith
  qed
qed

lemma sizes_sum:
  "sum_list (map (\<lambda>k. offset n bs (Suc k) - offset n bs k) [0..<m]) = offset n bs m"
proof (induction m)
  case 0
  show ?case by (simp add: offset_0)
next
  case (Suc m)
  have "offset n bs m \<le> offset n bs (Suc m)"
    by (rule offset_mono) simp
  with Suc.IH show ?case by simp
qed

lemma block_size:
  "offset n bs (Suc k) - offset n bs k
     = (if k < nsmall n bs then bsmall n bs else bsmall n bs + 1)"
  by (simp add: offset_Suc blarge_def)

lemma count_large:
  "length (filter (\<lambda>k. \<not> k < a) [0..<m]) = m - a"
proof (induction m)
  case 0
  show ?case by simp
next
  case (Suc m)
  then show ?case by (auto simp: Suc_diff_le)
qed

lemma count_small:
  "length (filter (\<lambda>k. k < a) [0..<m]) = min a m"
proof (induction m)
  case 0
  show ?case by simp
next
  case (Suc m)
  then show ?case by auto
qed

section \<open>Assignments and what they leave unchanged\<close>

lemma arr_put: "item (arr (put i j v s)) idx = (if idx = [i, j] then v else item (arr s) idx)"
  by (simp add: put_def)

lemma shape_put: "shape (arr (put i j v s)) = shape (arr s)"
  by (simp add: put_def)

lemma writes_put: "writes (put i j v s) = writes s @ [(i, j)]"
  by (simp add: put_def)

lemma solves_put: "solves (put i j v s) = solves s"
  by (simp add: put_def)

lemma fold_wcell_writes: "writes (fold (wcell G) cs s) = writes s @ cs"
  by (induction cs arbitrary: s) (simp_all add: wcell_def writes_put)

lemma fold_wcell_solves: "solves (fold (wcell G) cs s) = solves s"
  by (induction cs arbitrary: s) (simp_all add: wcell_def solves_put)

lemma fold_wcell_shape: "shape (arr (fold (wcell G) cs s)) = shape (arr s)"
  by (induction cs arbitrary: s) (simp_all add: wcell_def shape_put)

lemma fold_wcell_frame:
  "idx \<notin> cell_idx ` set cs \<Longrightarrow> item (arr (fold (wcell G) cs s)) idx = item (arr s) idx"
  by (induction cs arbitrary: s) (auto simp: wcell_def arr_put cell_idx_def)

lemma cell_idx_inj: "cell_idx c = cell_idx c' \<longleftrightarrow> c = c'"
  by (auto simp: cell_idx_def prod_eq_iff)

lemma fold_wcell_fixed:
  assumes "sorted_wrt lt cs"
    and asym: "\<And>c c'. lt c c' \<Longrightarrow> \<not> lt c' c"
    and deps: "\<And>c c'. c \<in> set cs \<Longrightarrow> c' \<in> set cs \<Longrightarrow> cell_idx c' \<in> D c \<Longrightarrow> lt c' c"
    and G: "\<And>c R R'. c \<in> set cs \<Longrightarrow> (\<forall>d\<in>D c. item R d = item R' d) \<Longrightarrow> G c R = G c R'"
    and "c \<in> set cs"
  shows "item (arr (fold (wcell G) cs s)) (cell_idx c) = G c (arr (fold (wcell G) cs s))"
  using assms(1,3,4,5)
proof (induction cs arbitrary: s)
  case Nil
  then show ?case by simp
next
  case (Cons c0 cs)
  let ?s1 = "wcell G c0 s"
  let ?sf = "fold (wcell G) cs ?s1"
  have sorted: "sorted_wrt lt cs" and before: "\<forall>c'\<in>set cs. lt c0 c'"
    using Cons.prems(1) by simp_all
  show ?case
  proof (cases "c \<in> set cs")
    case True
    have "item (arr ?sf) (cell_idx c) = G c (arr ?sf)"
    proof (rule Cons.IH [OF sorted _ _ True])
      show "\<And>c c'. c \<in> set cs \<Longrightarrow> c' \<in> set cs \<Longrightarrow> cell_idx c' \<in> D c \<Longrightarrow> lt c' c"
        using Cons.prems(2) by simp
      show "\<And>c R R'. c \<in> set cs \<Longrightarrow> (\<forall>d\<in>D c. item R d = item R' d) \<Longrightarrow> G c R = G c R'"
        using Cons.prems(3) by simp
    qed
    then show ?thesis by simp
  next
    case False
    with Cons.prems(4) have c: "c = c0" by simp
    have notin: "cell_idx c0 \<notin> cell_idx ` set cs"
      using False c by (auto simp: cell_idx_inj)
    have self: "cell_idx c0 \<notin> D c0"
      using Cons.prems(2) [of c0 c0] asym [of c0 c0] by auto
    have later: "d \<notin> cell_idx ` set cs" if "d \<in> D c0" for d
    proof
      assume "d \<in> cell_idx ` set cs"
      then obtain c' where c': "c' \<in> set cs" "d = cell_idx c'" by blast
      with that Cons.prems(2) [of c0 c'] have "lt c' c0" by simp
      moreover have "lt c0 c'" using before c' by blast
      ultimately show False using asym by blast
    qed
    have same: "item (arr s) d = item (arr ?sf) d" if "d \<in> D c0" for d
    proof -
      have "d \<noteq> cell_idx c0" using that self by blast
      then have "item (arr ?s1) d = item (arr s) d"
        by (simp add: wcell_def arr_put cell_idx_def)
      moreover have "item (arr ?sf) d = item (arr ?s1) d"
        using later [OF that] by (rule fold_wcell_frame)
      ultimately show ?thesis by simp
    qed
    have "item (arr ?sf) (cell_idx c0) = item (arr ?s1) (cell_idx c0)"
      using notin by (rule fold_wcell_frame)
    also have "\<dots> = G c0 (arr s)"
      by (simp add: wcell_def arr_put cell_idx_def)
    also have "\<dots> = G c0 (arr ?sf)"
      using Cons.prems(3) [of c0 "arr s" "arr ?sf"] same by simp
    finally show ?thesis using c by simp
  qed
qed

section \<open>The within-block phase as one sequence of assignments\<close>

lemma fold_concat_map: "fold f (concat (map g xs)) s = fold (\<lambda>x. fold f (g x)) xs s"
  by (induction xs arbitrary: s) simp_all

lemma wcell_pair: "wcell G (i, j) = (\<lambda>s. put i j (G (i, j) (arr s)) s)"
  by (rule ext) (simp add: wcell_def)

lemma seed_diag_eq:
  "seed_diag ops T n s
     = fold (wcell (\<lambda>c R. f_sqrt ops (item T [fst c, fst c]))) (diag_cells n) s"
  by (simp add: seed_diag_def diag_cells_def fold_map comp_def wcell_pair)

lemma within_col_eq:
  "within_col ops T start j s
     = fold (wcell (\<lambda>c R. entry_val ops T R (fst c) (snd c))) (col_cells start j) s"
proof -
  have "within_entry ops T j = (\<lambda>i. wcell (\<lambda>c R. entry_val ops T R (fst c) (snd c)) (i, j))"
    by (rule ext)+ (simp add: within_entry_def wcell_def)
  then show ?thesis
    by (simp add: within_col_def col_cells_def fold_map comp_def)
qed

lemma within_block_eq:
  "within_block ops T p s
     = fold (wcell (\<lambda>c R. entry_val ops T R (fst c) (snd c))) (tri_cells p) s"
proof -
  have "within_col ops T (fst p)
          = (\<lambda>j. fold (wcell (\<lambda>c R. entry_val ops T R (fst c) (snd c))) (col_cells (fst p) j))"
    by (rule ext)+ (simp add: within_col_eq)
  then show ?thesis
    by (simp add: within_block_def tri_cells_def fold_concat_map)
qed

lemma within_blocks_eq:
  "within_blocks ops T pairs s
     = fold (wcell (\<lambda>c R. entry_val ops T R (fst c) (snd c))) (within_order pairs) s"
proof -
  have "within_block ops T
          = (\<lambda>p. fold (wcell (\<lambda>c R. entry_val ops T R (fst c) (snd c))) (tri_cells p))"
    by (rule ext)+ (simp add: within_block_eq)
  then show ?thesis
    by (simp add: within_blocks_def within_order_def fold_concat_map)
qed

lemma set_col_cells:
  "c \<in> set (col_cells start j) \<longleftrightarrow> snd c = j \<and> start \<le> fst c \<and> fst c < j"
  by (cases c) (auto simp: col_cells_def)

lemma set_tri_cells:
  "c \<in> set (tri_cells p) \<longleftrightarrow> fst p \<le> fst c \<and> fst c < snd c \<and> snd c < snd p"
  by (auto simp: tri_cells_def set_col_cells)

lemma sorted_wrt_concat_map_upt:
  assumes "\<And>k. a \<le> k \<Longrightarrow> k < b \<Longrightarrow> sorted_wrt P (f k)"
    and "\<And>k l x y. a \<le> k \<Longrightarrow> k < l \<Longrightarrow> l < b \<Longrightarrow> x \<in> set (f k) \<Longrightarrow> y \<in> set (f l) \<Longrightarrow> P x y"
  shows "sorted_wrt P (concat (map f [a..<b]))"
  using assms
proof (induction b)
  case 0
  show ?case by simp
next
  case (Suc b)
  show ?case
  proof (cases "a \<le> b")
    case True
    have "sorted_wrt P (concat (map f [a..<b]))"
      using Suc.prems by (intro Suc.IH) auto
    moreover have "sorted_wrt P (f b)"
      using Suc.prems(1) True by simp
    moreover have "P x y" if "x \<in> set (concat (map f [a..<b]))" "y \<in> set (f b)" for x y
    proof -
      from that(1) obtain k where "a \<le> k" "k < b" "x \<in> set (f k)" by auto
      then show ?thesis using Suc.prems(2) [of k b x y] that(2) by simp
    qed
    ultimately show ?thesis
      using True by (simp add: sorted_wrt_append)
  next
    case False
    then show ?thesis by simp
  qed
qed

lemma sorted_col_cells: "sorted_wrt col_major (col_cells start j)"
  by (simp add: col_cells_def sorted_wrt_map sorted_wrt_rev col_major_def)

lemma sorted_tri_cells: "sorted_wrt col_major (tri_cells p)"
  unfolding tri_cells_def
proof (rule sorted_wrt_concat_map_upt)
  show "\<And>k. sorted_wrt col_major (col_cells (fst p) k)"
    by (rule sorted_col_cells)
  show "\<And>k l x y. k < l \<Longrightarrow> x \<in> set (col_cells (fst p) k) \<Longrightarrow> y \<in> set (col_cells (fst p) l)
          \<Longrightarrow> col_major x y"
    by (simp add: set_col_cells col_major_def)
qed

lemma within_order_pairs:
  "within_order (start_stop_pairs n bs)
     = concat (map (\<lambda>k. tri_cells (offset n bs k, offset n bs (Suc k))) [0..<nblocks n bs])"
  by (simp add: within_order_def start_stop_pairs_eq comp_def)

lemma sorted_within_order: "sorted_wrt col_major (within_order (start_stop_pairs n bs))"
  unfolding within_order_pairs
proof (rule sorted_wrt_concat_map_upt)
  show "\<And>k. sorted_wrt col_major (tri_cells (offset n bs k, offset n bs (Suc k)))"
    by (rule sorted_tri_cells)
next
  fix k l x y
  assume kl: "k < l"
    and x: "x \<in> set (tri_cells (offset n bs k, offset n bs (Suc k)))"
    and y: "y \<in> set (tri_cells (offset n bs l, offset n bs (Suc l)))"
  have "offset n bs (Suc k) \<le> offset n bs l"
    using kl by (intro offset_mono) simp
  then show "col_major x y"
    using x y by (auto simp: set_tri_cells col_major_def)
qed

lemma set_within_order:
  "c \<in> set (within_order (start_stop_pairs n bs)) \<longleftrightarrow>
     (\<exists>k<nblocks n bs. offset n bs k \<le> fst c \<and> fst c < snd c \<and> snd c < offset n bs (Suc k))"
  by (auto simp: within_order_pairs set_tri_cells)

section \<open>The between-block phase\<close>

lemma assign_block_eq:
  "assign_block r0 r1 c0 c1 v s =
     (if shape v = [r1 - r0, c1 - c0]
      then Inr (fold (wcell (\<lambda>c R. item v [fst c - r0, snd c - c0]))
                  (block_cells (r0, r1) (c0, c1)) s)
      else Inl (ValueError ''could not broadcast input array''))"
  by (simp add: assign_block_def block_cells_def fold_concat_map fold_map comp_def wcell_pair)

lemma fold_err_hist:
  assumes "\<And>x s s'. x \<in> set xs \<Longrightarrow> f x s = Inr s' \<Longrightarrow> h s' = h s @ g x"
    and "fold_err f xs s = Inr s'"
  shows "h s' = h s @ concat (map g xs)"
  using assms
proof (induction xs arbitrary: s)
  case Nil
  then show ?case by simp
next
  case (Cons x xs)
  from Cons.prems(2) obtain s1 where s1: "f x s = Inr s1" "fold_err f xs s1 = Inr s'"
    by (auto split: sum.splits)
  have "h s1 = h s @ g x"
    using Cons.prems(1) s1(1) by simp
  moreover have "h s' = h s1 @ concat (map g xs)"
    using Cons.prems(1) s1(2) by (intro Cons.IH) auto
  ultimately show ?case by simp
qed

lemma fold_err_inv:
  assumes "\<And>x s s'. x \<in> set xs \<Longrightarrow> P s \<Longrightarrow> f x s = Inr s' \<Longrightarrow> P s'"
    and "P s" and "fold_err f xs s = Inr s'"
  shows "P s'"
  using assms
proof (induction xs arbitrary: s)
  case Nil
  then show ?case by simp
next
  case (Cons x xs)
  from Cons.prems(3) obtain s1 where s1: "f x s = Inr s1" "fold_err f xs s1 = Inr s'"
    by (auto split: sum.splits)
  have "P s1"
    using Cons.prems(1) [of x s s1] Cons.prems(2) s1(1) by simp
  then show ?case
    using Cons.prems(1) s1(2) by (intro Cons.IH [of s1]) auto
qed

lemma between_pair_Inr:
  assumes "between_pair ops z T pairs j i s = Inr s'"
  shows "\<exists>x sc info.
           z (slice2 (arr s) (fst (pairs ! i)) (snd (pairs ! i)) (fst (pairs ! i)) (snd (pairs ! i)))
             (slice2 (arr s) (fst (pairs ! j)) (snd (pairs ! j)) (fst (pairs ! j)) (snd (pairs ! j)))
             (rhs_block ops T (arr s) (j - i > 1) (pairs ! i) (pairs ! j)) = Inr (x, sc, info)
           \<and> shape x = [snd (pairs ! i) - fst (pairs ! i), snd (pairs ! j) - fst (pairs ! j)]
           \<and> s' = fold (wcell (\<lambda>c R. f_scale ops (item x [fst c - fst (pairs ! i),
                                                          snd c - fst (pairs ! j)]) sc))
                     (block_cells (pairs ! i) (pairs ! j)) (s\<lparr>solves := solves s @ [(i, j)]\<rparr>)"
  using assms
  by (auto simp: between_pair_def Let_def assign_block_eq scal2_def
      split: sum.splits prod.splits if_splits)

lemma between_pair_writes:
  "between_pair ops z T pairs j i s = Inr s' \<Longrightarrow>
     writes s' = writes s @ block_cells (pairs ! i) (pairs ! j)"
  by (drule between_pair_Inr) (auto simp: fold_wcell_writes)

lemma between_pair_solves:
  "between_pair ops z T pairs j i s = Inr s' \<Longrightarrow> solves s' = solves s @ [(i, j)]"
  by (drule between_pair_Inr) (auto simp: fold_wcell_solves)

lemma between_pair_shape:
  "between_pair ops z T pairs j i s = Inr s' \<Longrightarrow> shape (arr s') = shape (arr s)"
  by (drule between_pair_Inr) (auto simp: fold_wcell_shape)

lemma between_pair_frame:
  "between_pair ops z T pairs j i s = Inr s' \<Longrightarrow>
     idx \<notin> cell_idx ` set (block_cells (pairs ! i) (pairs ! j)) \<Longrightarrow>
     item (arr s') idx = item (arr s) idx"
  by (drule between_pair_Inr) (auto simp: fold_wcell_frame)

lemma between_col_writes:
  "between_col ops z T pairs j s = Inr s' \<Longrightarrow>
     writes s' = writes s @ concat (map (\<lambda>i. block_cells (pairs ! i) (pairs ! j)) (rev [0..<j]))"
  unfolding between_col_def
  by (erule fold_err_hist [rotated]) (rule between_pair_writes)

lemma between_col_solves:
  "between_col ops z T pairs j s = Inr s' \<Longrightarrow>
     solves s' = solves s @ map (\<lambda>i. (i, j)) (rev [0..<j])"
proof -
  assume "between_col ops z T pairs j s = Inr s'"
  then have "solves s' = solves s @ concat (map (\<lambda>i. [(i, j)]) (rev [0..<j]))"
    unfolding between_col_def
    by (rule fold_err_hist [rotated]) (rule between_pair_solves)
  moreover have "concat (map (\<lambda>i. [(i, j)]) xs) = map (\<lambda>i. (i, j)) xs" for xs :: "nat list"
    by (induction xs) simp_all
  ultimately show ?thesis by simp
qed

lemma between_blocks_writes:
  "between_blocks ops z T pairs nb s = Inr s' \<Longrightarrow>
     writes s' = writes s @ between_cells pairs nb"
  unfolding between_blocks_def between_cells_def
  by (erule fold_err_hist [rotated]) (rule between_col_writes)

lemma between_blocks_solves:
  "between_blocks ops z T pairs nb s = Inr s' \<Longrightarrow>
     solves s' = solves s @ between_order nb"
  unfolding between_blocks_def between_order_def
  by (erule fold_err_hist [rotated]) (rule between_col_solves)

lemma between_col_frame:
  assumes "between_col ops z T pairs j s = Inr s'"
    and "idx \<notin> cell_idx ` set (concat (map (\<lambda>i. block_cells (pairs ! i) (pairs ! j)) (rev [0..<j])))"
  shows "item (arr s') idx = item (arr s) idx"
proof (rule fold_err_inv [where P = "\<lambda>t. item (arr t) idx = item (arr s) idx"
      and f = "between_pair ops z T pairs j" and xs = "rev [0..<j]" and s = s])
  fix i t t'
  assume "i \<in> set (rev [0..<j])" "item (arr t) idx = item (arr s) idx"
    "between_pair ops z T pairs j i t = Inr t'"
  moreover from this assms(2) have "idx \<notin> cell_idx ` set (block_cells (pairs ! i) (pairs ! j))"
    by fastforce
  ultimately show "item (arr t') idx = item (arr s) idx"
    using between_pair_frame by metis
next
  show "fold_err (between_pair ops z T pairs j) (rev [0..<j]) s = Inr s'"
    using assms(1) by (simp add: between_col_def)
qed simp

lemma between_blocks_frame:
  assumes "between_blocks ops z T pairs nb s = Inr s'"
    and "idx \<notin> cell_idx ` set (between_cells pairs nb)"
  shows "item (arr s') idx = item (arr s) idx"
proof (rule fold_err_inv [where P = "\<lambda>t. item (arr t) idx = item (arr s) idx"
      and f = "between_col ops z T pairs" and xs = "[0..<nb]" and s = s])
  fix j t t'
  assume "j \<in> set [0..<nb]" "item (arr t) idx = item (arr s) idx"
    "between_col ops z T pairs j t = Inr t'"
  moreover from this assms(2)
  have "idx \<notin> cell_idx ` set (concat (map (\<lambda>i. block_cells (pairs ! i) (pairs ! j)) (rev [0..<j])))"
    by (fastforce simp: between_cells_def)
  ultimately show "item (arr t') idx = item (arr s) idx"
    using between_col_frame by metis
next
  show "fold_err (between_col ops z T pairs) [0..<nb] s = Inr s'"
    using assms(1) by (simp add: between_blocks_def)
qed simp

lemma between_col_shape:
  "between_col ops z T pairs j s = Inr s' \<Longrightarrow> shape (arr s') = shape (arr s)"
  unfolding between_col_def
  by (erule fold_err_inv [where P = "\<lambda>t. shape (arr t) = shape (arr s)", rotated 2])
    (simp_all add: between_pair_shape)

lemma between_blocks_shape:
  "between_blocks ops z T pairs nb s = Inr s' \<Longrightarrow> shape (arr s') = shape (arr s)"
  unfolding between_blocks_def
  by (erule fold_err_inv [where P = "\<lambda>t. shape (arr t) = shape (arr s)", rotated 2])
    (simp_all add: between_col_shape)

section \<open>The states after the seeding and after the within-block phase\<close>

lemma seeded_writes: "writes (seeded ops T n) = diag_cells n"
  by (simp add: seeded_def seed_diag_eq fold_wcell_writes)

lemma seeded_solves: "solves (seeded ops T n) = []"
  by (simp add: seeded_def seed_diag_eq fold_wcell_solves)

lemma seeded_shape: "shape (arr (seeded ops T n)) = [n, n]"
  by (simp add: seeded_def seed_diag_eq fold_wcell_shape zeros_def)

lemma set_diag_cells: "c \<in> set (diag_cells n) \<longleftrightarrow> fst c = snd c \<and> fst c < n"
  by (cases c) (auto simp: diag_cells_def)

lemma seeded_item:
  "item (arr (seeded ops T n)) [i, j]
     = (if i = j \<and> i < n then f_sqrt ops (item T [i, i]) else f_zero ops)"
proof (cases "i = j \<and> i < n")
  case True
  have "item (arr (seeded ops T n)) (cell_idx (i, i))
          = f_sqrt ops (item T [fst (i, i), fst (i, i)])"
    unfolding seeded_def seed_diag_eq
  proof (rule fold_wcell_fixed [where lt = "\<lambda>c c'. fst c < fst c'" and D = "\<lambda>c. {}"])
    show "sorted_wrt (\<lambda>c c'. fst c < fst c') (diag_cells n)"
      by (simp add: diag_cells_def sorted_wrt_map)
    show "(i, i) \<in> set (diag_cells n)"
      using True by (simp add: set_diag_cells)
  qed auto
  then show ?thesis
    using True by (simp add: cell_idx_def)
next
  case False
  then have "[i, j] \<notin> cell_idx ` set (diag_cells n)"
    by (auto simp: cell_idx_def set_diag_cells)
  then have "item (arr (seeded ops T n)) [i, j] = f_zero ops"
    unfolding seeded_def seed_diag_eq by (simp add: fold_wcell_frame zeros_def)
  with False show ?thesis
    by auto
qed

lemma within_phase_writes:
  "writes (within_phase ops T n bs) = diag_cells n @ within_order (start_stop_pairs n bs)"
  by (simp add: within_phase_def within_blocks_eq fold_wcell_writes seeded_writes)

lemma within_phase_solves: "solves (within_phase ops T n bs) = []"
  by (simp add: within_phase_def within_blocks_eq fold_wcell_solves seeded_solves)

lemma within_phase_shape: "shape (arr (within_phase ops T n bs)) = [n, n]"
  by (simp add: within_phase_def within_blocks_eq fold_wcell_shape seeded_shape)

lemma within_phase_frame:
  "(i, j) \<notin> set (within_order (start_stop_pairs n bs)) \<Longrightarrow>
     item (arr (within_phase ops T n bs)) [i, j] = item (arr (seeded ops T n)) [i, j]"
proof -
  assume "(i, j) \<notin> set (within_order (start_stop_pairs n bs))"
  then have "[i, j] \<notin> cell_idx ` set (within_order (start_stop_pairs n bs))"
    by (auto simp: cell_idx_def)
  then show ?thesis
    by (simp add: within_phase_def within_blocks_eq fold_wcell_frame)
qed

lemma run_eq:
  assumes "shape T = [m, n]" "blocksize \<noteq> 0"
  shows "sqrtm_triu_run ops z T blocksize
           = between_blocks ops z T (start_stop_pairs n blocksize) (nblocks n blocksize)
               (within_phase ops T n blocksize)"
  using assms
  by (simp add: sqrtm_triu_run_def inconsistent_def partition_total within_phase_def seeded_def)

lemma entry_val_cong:
  assumes "i < j"
    and "\<forall>d\<in>{[i, i], [j, j]} \<union> (\<lambda>k. [i, k]) ` {i<..<j} \<union> (\<lambda>k. [k, j]) ` {i<..<j}.
           item R d = item R' d"
  shows "entry_val ops T R i j = entry_val ops T R' i j"
proof -
  have "row_slice R i (i + 1) j = row_slice R' i (i + 1) j"
    using assms(2) by (auto simp: row_slice_def)
  moreover have "col_slice R (i + 1) j j = col_slice R' (i + 1) j j"
    using assms(2) by (auto simp: col_slice_def)
  moreover have "item R [i, i] = item R' [i, i]" "item R [j, j] = item R' [j, j]"
    using assms(2) by simp_all
  ultimately show ?thesis
    by (simp add: entry_val_def corr_def)
qed

lemma col_major_asym: "col_major c c' \<Longrightarrow> \<not> col_major c' c"
  by (auto simp: col_major_def)

lemma within_phase_fixed:
  assumes "c \<in> set (within_order (start_stop_pairs n bs))"
  shows "item (arr (within_phase ops T n bs)) [fst c, snd c]
           = entry_val ops T (arr (within_phase ops T n bs)) (fst c) (snd c)"
proof -
  let ?D = "\<lambda>c. {[fst c, fst c], [snd c, snd c]} \<union> (\<lambda>k. [fst c, k]) ` {fst c<..<snd c}
                  \<union> (\<lambda>k. [k, snd c]) ` {fst c<..<snd c}"
  have "item (arr (within_phase ops T n bs)) (cell_idx c)
          = entry_val ops T (arr (within_phase ops T n bs)) (fst c) (snd c)"
    unfolding within_phase_def within_blocks_eq
  proof (rule fold_wcell_fixed [where lt = col_major and D = ?D])
    show "sorted_wrt col_major (within_order (start_stop_pairs n bs))"
      by (rule sorted_within_order)
    show "\<And>c c'. col_major c c' \<Longrightarrow> \<not> col_major c' c"
      by (rule col_major_asym)
    show "c \<in> set (within_order (start_stop_pairs n bs))"
      by (rule assms)
  next
    fix c c'
    assume "c \<in> set (within_order (start_stop_pairs n bs))"
      "c' \<in> set (within_order (start_stop_pairs n bs))" "cell_idx c' \<in> ?D c"
    then show "col_major c' c"
      by (auto simp: set_within_order cell_idx_def col_major_def)
  next
    fix c :: "nat \<times> nat" and R R' :: "'a ndarray"
    assume "c \<in> set (within_order (start_stop_pairs n bs))"
      and "\<forall>d\<in>?D c. item R d = item R' d"
    then show "entry_val ops T R (fst c) (snd c) = entry_val ops T R' (fst c) (snd c)"
      by (intro entry_val_cong) (auto simp: set_within_order)
  qed
  then show ?thesis
    by (simp add: cell_idx_def)
qed

lemma within_phase_diag:
  assumes "i < n"
  shows "item (arr (within_phase ops T n bs)) [i, i] = f_sqrt ops (item T [i, i])"
proof -
  have "(i, i) \<notin> set (within_order (start_stop_pairs n bs))"
    by (simp add: set_within_order)
  then show ?thesis
    using assms by (simp add: within_phase_frame seeded_item)
qed

lemma pairs_mem:
  "p \<in> set (start_stop_pairs n bs) \<longleftrightarrow>
     (\<exists>k<nblocks n bs. p = (offset n bs k, offset n bs (Suc k)))"
  by (auto simp: start_stop_pairs_eq)

section \<open>No entry is assigned twice\<close>

lemma sorted_wrt_asym_distinct:
  assumes "\<And>x y. P x y \<Longrightarrow> \<not> P y x"
  shows "sorted_wrt P xs \<Longrightarrow> distinct xs"
proof (induction xs)
  case Nil
  show ?case by simp
next
  case (Cons x xs)
  have "x \<notin> set xs"
  proof
    assume "x \<in> set xs"
    with Cons.prems have "P x x" by simp
    with assms show False by blast
  qed
  with Cons show ?case by simp
qed

lemma distinct_concat_map:
  assumes "distinct xs"
    and "\<And>x. x \<in> set xs \<Longrightarrow> distinct (f x)"
    and "\<And>x y. x \<in> set xs \<Longrightarrow> y \<in> set xs \<Longrightarrow> x \<noteq> y \<Longrightarrow> set (f x) \<inter> set (f y) = {}"
  shows "distinct (concat (map f xs))"
  using assms
proof (induction xs)
  case Nil
  show ?case by simp
next
  case (Cons x xs)
  have "distinct (concat (map f xs))"
    using Cons.prems by (intro Cons.IH) auto
  moreover have "distinct (f x)"
    using Cons.prems(2) by simp
  moreover have "set (f x) \<inter> set (f y) = {}" if "y \<in> set xs" for y
    using Cons.prems(1) Cons.prems(3) [of x y] that by auto
  ultimately show ?case by auto
qed

lemma distinct_count_list: "distinct xs \<Longrightarrow> x \<in> set xs \<Longrightarrow> count_list xs x = 1"
  by (induction xs) (auto simp: count_list_0_iff)

lemma set_block_cells:
  "c \<in> set (block_cells bi bj) \<longleftrightarrow>
     fst bi \<le> fst c \<and> fst c < snd bi \<and> fst bj \<le> snd c \<and> snd c < snd bj"
  by (cases c) (auto simp: block_cells_def image_iff)

lemma distinct_block_cells: "distinct (block_cells bi bj)"
  unfolding block_cells_def
  by (rule distinct_concat_map) (auto simp: distinct_map inj_on_def)

lemma distinct_diag_cells: "distinct (diag_cells n)"
  by (simp add: diag_cells_def distinct_map inj_on_def)

lemma distinct_within_order: "distinct (within_order (start_stop_pairs n bs))"
  using col_major_asym sorted_within_order by (rule sorted_wrt_asym_distinct)

lemma set_between_cells:
  "c \<in> set (between_cells (start_stop_pairs n bs) (nblocks n bs)) \<longleftrightarrow>
     (\<exists>j<nblocks n bs. \<exists>i<j.
        offset n bs i \<le> fst c \<and> fst c < offset n bs (Suc i)
        \<and> offset n bs j \<le> snd c \<and> snd c < offset n bs (Suc j))"
  (is "?L \<longleftrightarrow> ?R")
proof -
  have cells: "c \<in> set (block_cells (start_stop_pairs n bs ! i) (start_stop_pairs n bs ! j)) \<longleftrightarrow>
          offset n bs i \<le> fst c \<and> fst c < offset n bs (Suc i)
          \<and> offset n bs j \<le> snd c \<and> snd c < offset n bs (Suc j)"
    if "j < nblocks n bs" "i < j" for i j
    using that by (simp add: set_block_cells pairs_nth)
  have "?L \<longleftrightarrow>
          (\<exists>j<nblocks n bs. \<exists>i<j.
             c \<in> set (block_cells (start_stop_pairs n bs ! i) (start_stop_pairs n bs ! j)))"
    by (simp add: between_cells_def Bex_def)
  also have "\<dots> \<longleftrightarrow> ?R"
    using cells by blast
  finally show ?thesis .
qed

lemma distinct_between_cells:
  "distinct (between_cells (start_stop_pairs n bs) (nblocks n bs))"
  unfolding between_cells_def
proof (rule distinct_concat_map)
  show "distinct [0..<nblocks n bs]" by simp
next
  fix j
  assume "j \<in> set [0..<nblocks n bs]"
  then have j: "j < nblocks n bs" by simp
  show "distinct (concat (map (\<lambda>i. block_cells (start_stop_pairs n bs ! i)
                                               (start_stop_pairs n bs ! j)) (rev [0..<j])))"
  proof (rule distinct_concat_map)
    show "distinct (rev [0..<j])" by simp
  next
    fix i
    show "distinct (block_cells (start_stop_pairs n bs ! i) (start_stop_pairs n bs ! j))"
      by (rule distinct_block_cells)
  next
    fix i i'
    assume "i \<in> set (rev [0..<j])" "i' \<in> set (rev [0..<j])" "i \<noteq> i'"
    then have "i < nblocks n bs" "i' < nblocks n bs" "i \<noteq> i'"
      using j by auto
    then show "set (block_cells (start_stop_pairs n bs ! i) (start_stop_pairs n bs ! j))
                 \<inter> set (block_cells (start_stop_pairs n bs ! i') (start_stop_pairs n bs ! j)) = {}"
      using offset_unique [of n bs i _ i']
      by (auto simp: set_block_cells pairs_nth)
  qed
next
  fix j j'
  assume "j \<in> set [0..<nblocks n bs]" "j' \<in> set [0..<nblocks n bs]" "j \<noteq> j'"
  then have jj: "j < nblocks n bs" "j' < nblocks n bs" "j \<noteq> j'"
    by auto
  show "set (concat (map (\<lambda>i. block_cells (start_stop_pairs n bs ! i)
                                          (start_stop_pairs n bs ! j)) (rev [0..<j])))
          \<inter> set (concat (map (\<lambda>i. block_cells (start_stop_pairs n bs ! i)
                                              (start_stop_pairs n bs ! j')) (rev [0..<j']))) = {}"
    using jj offset_unique [of n bs j _ j']
    by (auto simp: set_block_cells pairs_nth)
qed

lemma offset_le_n: "k \<le> nblocks n bs \<Longrightarrow> offset n bs k \<le> n"
  using offset_mono [of k "nblocks n bs" n bs] by (simp add: offset_last)

lemma between_above_diag:
  assumes "c \<in> set (between_cells (start_stop_pairs n bs) (nblocks n bs))"
  shows "fst c < snd c" and "snd c < n"
proof -
  from assms obtain i j where ij: "j < nblocks n bs" "i < j"
    "fst c < offset n bs (Suc i)" "offset n bs j \<le> snd c" "snd c < offset n bs (Suc j)"
    by (auto simp: set_between_cells)
  have "offset n bs (Suc i) \<le> offset n bs j"
    using ij(2) by (intro offset_mono) simp
  with ij show "fst c < snd c" by linarith
  have "offset n bs (Suc j) \<le> n"
    using ij(1) by (intro offset_le_n) simp
  with ij show "snd c < n" by linarith
qed

lemma within_above_diag:
  assumes "c \<in> set (within_order (start_stop_pairs n bs))"
  shows "fst c < snd c" and "snd c < n"
proof -
  from assms obtain k where k: "k < nblocks n bs" "fst c < snd c" "snd c < offset n bs (Suc k)"
    by (auto simp: set_within_order)
  then show "fst c < snd c" by simp
  have "offset n bs (Suc k) \<le> n"
    using k(1) by (intro offset_le_n) simp
  with k show "snd c < n" by linarith
qed

lemma within_between_disjoint:
  "set (within_order (start_stop_pairs n bs))
     \<inter> set (between_cells (start_stop_pairs n bs) (nblocks n bs)) = {}"
proof -
  have False
    if "c \<in> set (within_order (start_stop_pairs n bs))"
      "c \<in> set (between_cells (start_stop_pairs n bs) (nblocks n bs))" for c
  proof -
    from that(1) obtain k where k: "offset n bs k \<le> fst c" "fst c < snd c"
      "snd c < offset n bs (Suc k)"
      by (auto simp: set_within_order)
    from that(2) obtain i j where ij: "i < j"
      "offset n bs i \<le> fst c" "fst c < offset n bs (Suc i)"
      "offset n bs j \<le> snd c" "snd c < offset n bs (Suc j)"
      by (auto simp: set_between_cells)
    have "k = i"
      using k ij by (intro offset_unique [of n bs k "fst c" i]) linarith+
    moreover have "k = j"
      using k ij by (intro offset_unique [of n bs k "snd c" j]) linarith+
    ultimately show False using ij(1) by simp
  qed
  then show ?thesis by blast
qed

lemma distinct_write_order: "distinct (write_order n bs)"
proof -
  have "set (diag_cells n) \<inter> set (within_order (start_stop_pairs n bs)) = {}"
    using within_above_diag(1) [of _ n bs] by (fastforce simp: set_diag_cells)
  moreover have "set (diag_cells n)
                   \<inter> set (between_cells (start_stop_pairs n bs) (nblocks n bs)) = {}"
    using between_above_diag(1) [of _ n bs] by (fastforce simp: set_diag_cells)
  ultimately show ?thesis
    unfolding write_order_def
    using within_between_disjoint [of n bs]
    by (simp add: distinct_diag_cells distinct_within_order distinct_between_cells Int_Un_distrib)
qed

lemma set_write_order: "c \<in> set (write_order n bs) \<longleftrightarrow> fst c \<le> snd c \<and> snd c < n"
proof
  assume "c \<in> set (write_order n bs)"
  then consider "c \<in> set (diag_cells n)"
    | "c \<in> set (within_order (start_stop_pairs n bs))"
    | "c \<in> set (between_cells (start_stop_pairs n bs) (nblocks n bs))"
    by (auto simp: write_order_def)
  then show "fst c \<le> snd c \<and> snd c < n"
  proof cases
    case 1
    then show ?thesis by (simp add: set_diag_cells)
  next
    case 2
    from within_above_diag [OF this] show ?thesis by simp
  next
    case 3
    from between_above_diag [OF this] show ?thesis by simp
  qed
next
  assume c: "fst c \<le> snd c \<and> snd c < n"
  show "c \<in> set (write_order n bs)"
  proof (cases "fst c = snd c")
    case True
    with c show ?thesis by (simp add: write_order_def set_diag_cells)
  next
    case False
    with c have lt: "fst c < snd c" "snd c < n" "fst c < n" by simp_all
    from lt(3) obtain i where i: "i < nblocks n bs" "offset n bs i \<le> fst c"
      "fst c < offset n bs (Suc i)"
      using offset_cover [of "fst c" n bs "nblocks n bs"] by (auto simp: offset_last)
    from lt(2) obtain j where j: "j < nblocks n bs" "offset n bs j \<le> snd c"
      "snd c < offset n bs (Suc j)"
      using offset_cover [of "snd c" n bs "nblocks n bs"] by (auto simp: offset_last)
    have "i \<le> j"
    proof (rule ccontr)
      assume "\<not> i \<le> j"
      then have "offset n bs (Suc j) \<le> offset n bs i"
        by (intro offset_mono) simp
      with i j lt show False by linarith
    qed
    show ?thesis
    proof (cases "i = j")
      case True
      with i j lt have "c \<in> set (within_order (start_stop_pairs n bs))"
        by (auto simp: set_within_order)
      then show ?thesis by (simp add: write_order_def)
    next
      case False
      with \<open>i \<le> j\<close> have "i < j" by simp
      with i j have "c \<in> set (between_cells (start_stop_pairs n bs) (nblocks n bs))"
        by (auto simp: set_between_cells)
      then show ?thesis by (simp add: write_order_def)
    qed
  qed
qed

lemma run_writes:
  assumes "shape T = [m, n]" "blocksize \<noteq> 0"
    and "sqrtm_triu_run ops z T blocksize = Inr s"
  shows "writes s = write_order n blocksize"
  using assms between_blocks_writes [of ops z T _ _ "within_phase ops T n blocksize" s]
  by (simp add: run_eq [of T m n] within_phase_writes write_order_def)

lemma run_solves:
  assumes "shape T = [m, n]" "blocksize \<noteq> 0"
    and "sqrtm_triu_run ops z T blocksize = Inr s"
  shows "solves s = between_order (nblocks n blocksize)"
  using assms between_blocks_solves [of ops z T _ _ "within_phase ops T n blocksize" s]
  by (simp add: run_eq [of T m n] within_phase_solves)

lemma run_shape:
  assumes "shape T = [m, n]" "blocksize \<noteq> 0"
    and "sqrtm_triu_run ops z T blocksize = Inr s"
  shows "shape (arr s) = [n, n]"
  using assms between_blocks_shape [of ops z T _ _ "within_phase ops T n blocksize" s]
  by (simp add: run_eq [of T m n] within_phase_shape)

lemma run_unwritten:
  assumes "shape T = [m, n]" "blocksize \<noteq> 0"
    and "sqrtm_triu_run ops z T blocksize = Inr s"
    and "(i, j) \<notin> set (write_order n blocksize)"
  shows "item (arr s) [i, j] = f_zero ops"
proof -
  have run: "between_blocks ops z T (start_stop_pairs n blocksize) (nblocks n blocksize)
               (within_phase ops T n blocksize) = Inr s"
    using assms(1-3) by (simp add: run_eq [of T m n])
  have notin: "(i, j) \<notin> set (diag_cells n)"
    "(i, j) \<notin> set (within_order (start_stop_pairs n blocksize))"
    "(i, j) \<notin> set (between_cells (start_stop_pairs n blocksize) (nblocks n blocksize))"
    using assms(4) by (simp_all add: write_order_def)
  have "[i, j] \<notin> cell_idx ` set (between_cells (start_stop_pairs n blocksize) (nblocks n blocksize))"
    using notin(3) by (auto simp: cell_idx_def)
  with run have "item (arr s) [i, j] = item (arr (within_phase ops T n blocksize)) [i, j]"
    by (rule between_blocks_frame)
  also have "\<dots> = item (arr (seeded ops T n)) [i, j]"
    using notin(2) by (rule within_phase_frame)
  also have "\<dots> = f_zero ops"
    using notin(1) by (auto simp: seeded_item set_diag_cells)
  finally show ?thesis .
qed

section \<open>The engine returns when the solver does\<close>

lemma fold_err_total:
  assumes "\<And>x s. x \<in> set xs \<Longrightarrow> \<exists>s'. f x s = Inr s'"
  shows "\<exists>s'. fold_err f xs s = Inr s'"
  using assms
proof (induction xs arbitrary: s)
  case Nil
  show ?case by simp
next
  case (Cons x xs)
  from Cons.prems [of x s] obtain s1 where "f x s = Inr s1" by auto
  moreover from Cons.IH [of s1] Cons.prems obtain s' where "fold_err f xs s1 = Inr s'" by auto
  ultimately show ?case by simp
qed

lemma shape_rhs_block:
  "shape (rhs_block ops T R far bi bj) = [snd bi - fst bi, snd bj - fst bj]"
  by (simp add: rhs_block_def Let_def slice2_def sub2_def)

lemma between_pair_total:
  assumes "\<And>Rii Rjj S. \<exists>x sc info. z Rii Rjj S = Inr (x, sc, info) \<and> shape x = shape S"
  shows "\<exists>s'. between_pair ops z T pairs j i s = Inr s'"
proof -
  let ?S = "rhs_block ops T (arr s) (j - i > 1) (pairs ! i) (pairs ! j)"
  from assms obtain x sc info where
    "z (slice2 (arr s) (fst (pairs ! i)) (snd (pairs ! i)) (fst (pairs ! i)) (snd (pairs ! i)))
       (slice2 (arr s) (fst (pairs ! j)) (snd (pairs ! j)) (fst (pairs ! j)) (snd (pairs ! j))) ?S
       = Inr (x, sc, info)" "shape x = shape ?S"
    by blast
  then show ?thesis
    by (simp add: between_pair_def Let_def assign_block_def scal2_def shape_rhs_block)
qed

lemma run_returns:
  assumes "shape T = [m, n]" "blocksize \<noteq> 0"
    and "\<And>Rii Rjj S. \<exists>x sc info. z Rii Rjj S = Inr (x, sc, info) \<and> shape x = shape S"
  shows "\<exists>s. sqrtm_triu_run ops z T blocksize = Inr s"
  unfolding run_eq [OF assms(1,2)] between_blocks_def between_col_def
  by (intro fold_err_total between_pair_total assms(3))

section \<open>One block\<close>

lemma nblocks_one:
  assumes "1 \<le> n" "int n \<le> bs"
  shows "nblocks n bs = 1"
proof -
  have bs: "1 \<le> bs" using assms by linarith
  have "n < 2 * nat bs" using assms by linarith
  then have "n div nat bs < 2"
    by (rule less_mult_imp_div_less)
  then show ?thesis
    using bs by (simp add: nblocks_nat max_def)
qed

lemma single_pair:
  assumes "nblocks n bs = 1"
  shows "start_stop_pairs n bs = [(0, n)]"
  using offset_last [of n bs] by (simp add: start_stop_pairs_eq assms offset_0)

lemma between_blocks_one: "between_blocks ops z T pairs (Suc 0) s = Inr s"
  by (simp add: between_blocks_def between_col_def)

lemma nblocks_zero: "nblocks 0 bs = 1"
  by (simp add: nblocks_def)

section \<open>One step of the between-block phase\<close>

lemma fold_err_append:
  "fold_err f (xs @ ys) s = (case fold_err f xs s of Inl e \<Rightarrow> Inl e | Inr s1 \<Rightarrow> fold_err f ys s1)"
  by (induction xs arbitrary: s) (auto split: sum.splits)

lemma fold_err_concat_map:
  "fold_err f (concat (map g xs)) s = fold_err (\<lambda>x. fold_err f (g x)) xs s"
  by (induction xs arbitrary: s) (auto simp: fold_err_append split: sum.splits)

lemma fold_err_map: "fold_err f (map g xs) s = fold_err (\<lambda>x. f (g x)) xs s"
  by (induction xs arbitrary: s) (auto split: sum.splits)

lemma between_blocks_flat:
  "between_blocks ops z T pairs nb s
     = fold_err (\<lambda>p. between_pair ops z T pairs (snd p) (fst p)) (between_order nb) s"
proof -
  have "between_col ops z T pairs
          = (\<lambda>j. fold_err (\<lambda>p. between_pair ops z T pairs (snd p) (fst p))
                   (map (\<lambda>i. (i, j)) (rev [0..<j])))"
    by (rule ext)+ (simp add: between_col_def fold_err_map)
  then show ?thesis
    by (simp add: between_blocks_def between_order_def fold_err_concat_map)
qed

lemma between_cells_flat:
  "between_cells pairs nb
     = concat (map (\<lambda>p. block_cells (pairs ! fst p) (pairs ! snd p)) (between_order nb))"
proof -
  have "concat (map f (concat xss)) = concat (map (\<lambda>xs. concat (map f xs)) xss)"
    for f :: "nat \<times> nat \<Rightarrow> (nat \<times> nat) list" and xss
    by (induction xss) simp_all
  then show ?thesis
    by (simp add: between_cells_def between_order_def comp_def)
qed

lemma pairs_frame:
  assumes "fold_err (\<lambda>p. between_pair ops z T pairs (snd p) (fst p)) ps s = Inr s'"
    and "idx \<notin> cell_idx ` set (concat (map (\<lambda>p. block_cells (pairs ! fst p) (pairs ! snd p)) ps))"
  shows "item (arr s') idx = item (arr s) idx"
  using assms
proof (induction ps arbitrary: s)
  case Nil
  then show ?case by simp
next
  case (Cons p ps)
  from Cons.prems(1) obtain s1 where s1: "between_pair ops z T pairs (snd p) (fst p) s = Inr s1"
    "fold_err (\<lambda>p. between_pair ops z T pairs (snd p) (fst p)) ps s1 = Inr s'"
    by (auto split: sum.splits)
  have "idx \<notin> cell_idx ` set (block_cells (pairs ! fst p) (pairs ! snd p))"
    using Cons.prems(2) by auto
  with s1(1) have "item (arr s1) idx = item (arr s) idx"
    by (rule between_pair_frame)
  moreover have "item (arr s') idx = item (arr s1) idx"
    using s1(2) Cons.prems(2) by (intro Cons.IH) auto
  ultimately show ?case by simp
qed

lemma fold_wcell_const:
  "c \<in> set cs \<Longrightarrow> item (arr (fold (wcell (\<lambda>c R. g c)) cs s)) (cell_idx c) = g c"
proof (induction cs arbitrary: s)
  case Nil
  then show ?case by simp
next
  case (Cons c0 cs)
  show ?case
  proof (cases "c \<in> set cs")
    case True
    then show ?thesis using Cons.IH by simp
  next
    case False
    with Cons.prems have c: "c = c0" by simp
    have "cell_idx c0 \<notin> cell_idx ` set cs"
      using False c by (auto simp: cell_idx_inj)
    then have "item (arr (fold (wcell (\<lambda>c R. g c)) cs (wcell (\<lambda>c R. g c) c0 s))) (cell_idx c0)
                 = item (arr (wcell (\<lambda>c R. g c) c0 s)) (cell_idx c0)"
      by (rule fold_wcell_frame)
    moreover have "item (arr (wcell (\<lambda>c R. g c) c0 s)) (cell_idx c0) = g c0"
      by (simp add: wcell_def arr_put cell_idx_def)
    ultimately show ?thesis
      using c by simp
  qed
qed

lemma between_pair_stores:
  assumes "between_pair ops z T pairs j i s = Inr s'"
  shows "\<exists>x sc info.
           z (slice2 (arr s) (fst (pairs ! i)) (snd (pairs ! i)) (fst (pairs ! i)) (snd (pairs ! i)))
             (slice2 (arr s) (fst (pairs ! j)) (snd (pairs ! j)) (fst (pairs ! j)) (snd (pairs ! j)))
             (rhs_block ops T (arr s) (j - i > 1) (pairs ! i) (pairs ! j)) = Inr (x, sc, info)
           \<and> (\<forall>a\<in>set [fst (pairs ! i)..<snd (pairs ! i)].
                \<forall>b\<in>set [fst (pairs ! j)..<snd (pairs ! j)].
                  item (arr s') [a, b]
                    = f_scale ops (item x [a - fst (pairs ! i), b - fst (pairs ! j)]) sc)"
proof -
  from between_pair_Inr [OF assms] obtain x sc info where
    z: "z (slice2 (arr s) (fst (pairs ! i)) (snd (pairs ! i)) (fst (pairs ! i)) (snd (pairs ! i)))
          (slice2 (arr s) (fst (pairs ! j)) (snd (pairs ! j)) (fst (pairs ! j)) (snd (pairs ! j)))
          (rhs_block ops T (arr s) (j - i > 1) (pairs ! i) (pairs ! j)) = Inr (x, sc, info)"
    and s': "s' = fold (wcell (\<lambda>c R. f_scale ops (item x [fst c - fst (pairs ! i),
                                                        snd c - fst (pairs ! j)]) sc))
                    (block_cells (pairs ! i) (pairs ! j)) (s\<lparr>solves := solves s @ [(i, j)]\<rparr>)"
    by blast
  have "item (arr s') [a, b] = f_scale ops (item x [a - fst (pairs ! i), b - fst (pairs ! j)]) sc"
    if "a \<in> set [fst (pairs ! i)..<snd (pairs ! i)]" "b \<in> set [fst (pairs ! j)..<snd (pairs ! j)]"
    for a b
  proof -
    have "(a, b) \<in> set (block_cells (pairs ! i) (pairs ! j))"
      using that by (simp add: set_block_cells)
    from fold_wcell_const [OF this,
        of "\<lambda>c. f_scale ops (item x [fst c - fst (pairs ! i), snd c - fst (pairs ! j)]) sc"]
    show ?thesis
      by (simp add: s' cell_idx_def)
  qed
  with z show ?thesis by blast
qed

lemma suffix_cells_disjoint:
  assumes "between_order (nblocks n bs) = xs @ p # ys"
  shows "set (block_cells (start_stop_pairs n bs ! fst p) (start_stop_pairs n bs ! snd p))
           \<inter> set (concat (map (\<lambda>p. block_cells (start_stop_pairs n bs ! fst p)
                                                (start_stop_pairs n bs ! snd p)) ys)) = {}"
proof -
  have "distinct (concat (map (\<lambda>p. block_cells (start_stop_pairs n bs ! fst p)
                                               (start_stop_pairs n bs ! snd p)) (xs @ p # ys)))"
    using distinct_between_cells [of n bs] by (simp add: between_cells_flat assms)
  then show ?thesis
    by auto
qed

section \<open>Lemmas on the driver\<close>

lemma lookup_diag: "lookup_name ''diag'' = Inl (NameError ''diag'')"
  by (simp add: lookup_name_def sqrtm_locals_def module_globals_def python_builtins_def)

lemma report_disp: "report ops C A T X True = Inl (NameError ''diag'')"
  by (simp add: report_def lookup_diag)

lemma compute_disp: "compute ops C A True blocksize \<noteq> Inr out"
  by (simp add: compute_def report_disp split: sum.splits prod.splits)

lemma validate_iff:
  "validate A blocksize \<noteq> None \<longleftrightarrow> length (shape A) \<noteq> 2 \<or> blocksize < 1"
  by (simp add: validate_def)

lemma report_errest:
  assumes "report ops C A T X False = Inr out"
  shows "result out = X"
    and "errest out = Some (r_div ops (r_pow ops (norm_fro C (sub2 ops (dot2 ops X X) A)) 2)
                                     (norm_fro C A))"
  using assms
  by (auto simp: report_def matmul_def msub_def split: sum.splits if_splits)

lemma compute_errest:
  assumes "compute ops C A False blocksize = Inr out"
  shows "errest out = Some (r_div ops (r_pow ops (norm_fro C (sub2 ops (dot2 ops (result out)
                                                                   (result out)) A)) 2)
                                     (norm_fro C A))"
proof -
  from assms obtain T X where "report ops C A T X False = Inr out"
    by (auto simp: compute_def split: sum.splits prod.splits)
  from report_errest [OF this] show ?thesis by simp
qed

section \<open>The examples\<close>

lemma triu_single:
  assumes "shape T = [m, n]" "blocksize \<noteq> 0" "nblocks n blocksize = 1"
  shows "sqrtm_triu ops z T blocksize = Inr (arr (within_phase ops T n blocksize))"
  using assms(3) by (simp add: sqrtm_triu_def run_eq [OF assms(1,2)] between_blocks_one)

lemma rounded_ops_simps:
  "f_zero rounded_ops = 0"
  "f_sqrt rounded_ops = (\<lambda>x. if x = 2 then 14 / 10 else sqrt x)"
  "f_sub rounded_ops = (-)"
  "f_vdot rounded_ops = (\<lambda>xs ys. sum_list (map2 (*) xs ys))"
  "f_herm rounded_ops = (\<lambda>M. \<lparr>shape = rev (shape M), item = (\<lambda>idx. item M (rev idx))\<rparr>)"
  "r_pow rounded_ops = (^)"
  "r_div rounded_ops = (/)"
  by (simp_all add: rounded_ops_def exact_ops_def)

lemma schur_square:
  "length (shape A) = 2 \<Longrightarrow> shape A ! 0 = shape A ! 1 \<Longrightarrow> schur C A = factorise C A"
  by (simp add: schur_def)

lemma collab_simps:
  "factorise triangular_collab = (\<lambda>A. Inr (A, eye (shape A ! 0)))"
  "rsf2csf triangular_collab = (\<lambda>T Z. Inr (T, Z))"
  "ztrsyl triangular_collab = solve_scalar"
  "all_mat triangular_collab = (\<lambda>R Z. (R, Z))"
  "norm_fro triangular_collab
     = (\<lambda>M. sqrt (sum_list (map (\<lambda>i. sum_list (map (\<lambda>j. (item M [i, j])\<^sup>2) [0..<shape M ! 1]))
                              [0..<shape M ! 0])))"
  by (simp_all add: triangular_collab_def)

lemma dot2_shape: "shape (dot2 ops P Q) = [shape P ! 0, shape Q ! 1]"
  by (simp add: dot2_def)

lemma eye_shape: "shape (eye n) = [n, n]"
  by (simp add: eye_def)

lemma herm_shape: "shape (f_herm rounded_ops M) = rev (shape M)"
  by (simp add: rounded_ops_simps)

lemma R1_shape: "shape R1 = [Suc 0, Suc 0]"
  by (simp add: R1_def within_phase_shape)

lemma R1_item: "item R1 [0, 0] = 14 / 10"
  by (simp add: R1_def within_phase_diag rounded_ops_simps A1x1_def)

lemma X1_shape: "shape X1 = [Suc 0, Suc 0]"
  by (simp add: X1_def dot2_shape herm_shape eye_shape R1_shape)

lemma X1_item: "item X1 [0, 0] = 14 / 10"
  by (simp add: X1_def dot2_def row_slice_def col_slice_def rounded_ops_simps eye_def
      R1_shape R1_item)

lemma sqrtm_A1x1:
  "sqrtm rounded_ops triangular_collab A1x1 False 64
     = Inr \<lparr>printed = [], result = X1,
            errest = Some (r_div rounded_ops
                             (r_pow rounded_ops
                                (norm_fro triangular_collab
                                   (sub2 rounded_ops (dot2 rounded_ops X1 X1) A1x1)) 2)
                             (norm_fro triangular_collab A1x1))\<rparr>"
proof -
  have v: "validate A1x1 64 = None"
    by (simp add: validate_def A1x1_def)
  have "nblocks (Suc 0) 64 = 1"
    by (rule nblocks_one) simp_all
  then have t: "sqrtm_triu rounded_ops solve_scalar A1x1 64 = Inr R1"
    unfolding R1_def by (intro triu_single [of _ "Suc 0"]) (simp_all add: A1x1_def)
  have m1: "matmul rounded_ops (eye (Suc 0)) R1 = Inr (dot2 rounded_ops (eye (Suc 0)) R1)"
    by (simp add: matmul_def eye_shape R1_shape)
  have m2: "matmul rounded_ops (dot2 rounded_ops (eye (Suc 0)) R1)
              (f_herm rounded_ops (eye (Suc 0))) = Inr X1"
    by (simp add: matmul_def X1_def dot2_shape eye_shape herm_shape R1_shape)
  have m3: "matmul rounded_ops X1 X1 = Inr (dot2 rounded_ops X1 X1)"
    by (simp add: matmul_def X1_shape)
  have m4: "msub rounded_ops (dot2 rounded_ops X1 X1) A1x1
              = Inr (sub2 rounded_ops (dot2 rounded_ops X1 X1) A1x1)"
    by (simp add: msub_def dot2_shape X1_shape A1x1_def)
  have sc: "schur triangular_collab A1x1 = Inr (A1x1, eye (Suc 0))"
    by (simp add: schur_def collab_simps(1) A1x1_def)
  show ?thesis
    by (simp add: sqrtm_def v compute_def sc collab_simps(2-4) t m1 m2 report_def m3 m4)
qed

lemma sqrt_625: "sqrt (1 / 625) = 1 / 25"
  by (rule real_sqrt_unique) (simp_all add: power2_eq_square)

lemma norm_E1:
  "norm_fro triangular_collab (sub2 rounded_ops (dot2 rounded_ops X1 X1) A1x1) = 1 / 25"
  by (simp add: collab_simps sub2_def dot2_def X1_shape row_slice_def col_slice_def
      X1_item A1x1_def rounded_ops_simps power2_eq_square sqrt_625)

lemma norm_A1: "norm_fro triangular_collab A1x1 = 2"
  by (simp add: collab_simps A1x1_def)

lemma exact_ops_simps:
  "f_zero exact_ops = 0"
  "f_sqrt exact_ops = sqrt"
  "f_add exact_ops = (+)"
  "f_sub exact_ops = (-)"
  "f_div exact_ops = (/)"
  "f_scale exact_ops = (*)"
  "f_vdot exact_ops = (\<lambda>xs ys. sum_list (map2 (*) xs ys))"
  "f_herm exact_ops = (\<lambda>M. \<lparr>shape = rev (shape M), item = (\<lambda>idx. item M (rev idx))\<rparr>)"
  "r_pow exact_ops = (^)"
  "r_div exact_ops = (/)"
  by (simp_all add: exact_ops_def)

lemma sqrt_16: "sqrt 16 = 4"
  by (rule real_sqrt_unique) simp_all

lemma solve_scalar_shape:
  "\<exists>x sc info. solve_scalar Rii Rjj S = Inr (x, sc, info) \<and> shape x = shape S"
  by (simp add: solve_scalar_def)

lemma T3_run: "\<exists>s. sqrtm_triu_run exact_ops solve_scalar T3 1 = Inr s"
  by (rule run_returns [of T3 3 3, OF _ _ solve_scalar_shape]) (simp_all add: T3_def)

lemma pairs_3_1: "start_stop_pairs 3 1 = [(0, 1), (1, 2), (2, 3)]"
  by code_simp

lemma write_order_3_1:
  "diag_cells 3 @ within_order (start_stop_pairs 3 1)
     @ between_cells (start_stop_pairs 3 1) (nblocks 3 1)
   = [(0, 0), (1, 1), (2, 2), (0, 1), (1, 2), (0, 2)]"
  by code_simp

lemma between_order_3: "concat (map (\<lambda>j. map (\<lambda>i. (i, j)) (rev [0..<j])) [0..<nblocks 3 1])
                          = [(0, 1), (1, 2), (0, 2)]"
  by code_simp

lemma exact_herm_shape: "shape (f_herm exact_ops M) = rev (shape M)"
  by (simp add: exact_ops_simps)

section \<open>The claims\<close>

text \<open>
  C1 (the code does not do what the claim says). The claim: with \<^verbatim>\<open>disp\<close> true,
  \<^verbatim>\<open>sqrtm\<close> prints the advisory exactly when a diagonal entry of \<^verbatim>\<open>T\<close> is zero, and in
  every case returns \<^verbatim>\<open>X\<close> without raising. The code: line 147 evaluates the name
  \<^verbatim>\<open>diag\<close>, which the module neither imports nor defines (line 51 writes \<^verbatim>\<open>np.diag\<close>),
  so that once \<^verbatim>\<open>X\<close> has been computed the call ends with \<open>NameError\<close>. With \<^verbatim>\<open>disp\<close>
  true no call of \<^verbatim>\<open>sqrtm\<close> returns, whatever the input and the collaborators.
\<close>

theorem sqrtm_disp_raises:
  "sqrtm ops C A True blocksize \<noteq> Inr out
   \<and> report ops C A T X True = Inl (NameError ''diag'')"
  by (simp add: sqrtm_def compute_disp report_disp split: option.splits)

text \<open>
  The call \<^verbatim>\<open>sqrtm([[4, 3], [0, 9]])\<close>, on a matrix with no zero eigenvalue: every
  step up to line 144 succeeds, and line 147 raises.
\<close>

theorem sqrtm_disp_raises_witness:
  "sqrtm exact_ops triangular_collab T2 True 64 = Inl (NameError ''diag'')"
proof -
  define R where "R = arr (within_phase exact_ops T2 2 64)"
  have v: "validate T2 64 = None"
    by (simp add: validate_def T2_def)
  have "nblocks 2 64 = 1"
    by (rule nblocks_one) simp_all
  then have t: "sqrtm_triu exact_ops solve_scalar T2 64 = Inr R"
    unfolding R_def by (intro triu_single [of _ 2]) (simp_all add: T2_def)
  have Rsh: "shape R = [2, 2]"
    by (simp add: R_def within_phase_shape)
  have m1: "matmul exact_ops (eye 2) R = Inr (dot2 exact_ops (eye 2) R)"
    by (simp add: matmul_def eye_shape Rsh)
  have m2: "matmul exact_ops (dot2 exact_ops (eye 2) R) (f_herm exact_ops (eye 2))
              = Inr (dot2 exact_ops (dot2 exact_ops (eye 2) R) (f_herm exact_ops (eye 2)))"
    by (simp add: matmul_def dot2_shape eye_shape exact_herm_shape Rsh)
  have sc: "schur triangular_collab T2 = Inr (T2, eye 2)"
    by (simp add: schur_def collab_simps(1) T2_def)
  have "sqrtm exact_ops triangular_collab T2 True 64
          = report exact_ops triangular_collab T2 T2
              (dot2 exact_ops (dot2 exact_ops (eye 2) R) (f_herm exact_ops (eye 2))) True"
    by (simp add: sqrtm_def v compute_def sc collab_simps(2-4) t m1 m2)
  then show ?thesis
    using sqrtm_disp_raises [where ops = exact_ops and C = triangular_collab and A = T2
        and T = T2 and X = "dot2 exact_ops (dot2 exact_ops (eye 2) R) (f_herm exact_ops (eye 2))"]
    by simp
qed

text \<open>
  C2. \<^verbatim>\<open>sqrtm\<close> rejects with \<open>ValueError\<close>, before any computation, exactly when the
  input is not 2-D, or is 2-D but not square, or the block size is below one. Before any
  computation: the exception is the same whatever the arithmetic, the collaborators
  and \<^verbatim>\<open>disp\<close> are. The input that is not 2-D and the block size below one are rejected
  by lines 136 to 139, in this order, and the 2-D input that is not square by \<^verbatim>\<open>schur\<close>
  on line 140, before it factorises; in particular an array of shape \<open>(2, 3)\<close> and the
  block size zero are rejected. A square 2-D input with a block size of at least one
  passes the checks: the call is then the computation, which begins with the
  factorisation.
\<close>

theorem sqrtm_rejects_invalid:
  "((\<exists>msg. \<forall>(ops' :: ('a, 'r) ops) (C' :: ('a, 'r) collab) disp'.
        sqrtm ops' C' A disp' blocksize = Inl (ValueError msg))
    \<longleftrightarrow> length (shape A) \<noteq> 2
        \<or> (length (shape A) = 2 \<and> shape A ! 0 \<noteq> shape A ! 1)
        \<or> blocksize < 1)
   \<and> (length (shape A) \<noteq> 2 \<longrightarrow>
        sqrtm ops C A disp blocksize = Inl (ValueError ''Non-matrix input to matrix function.''))
   \<and> (length (shape A) = 2 \<and> blocksize < 1 \<longrightarrow>
        sqrtm ops C A disp blocksize = Inl (ValueError ''The blocksize should be at least 1.''))
   \<and> (length (shape A) = 2 \<and> 1 \<le> blocksize \<and> shape A ! 0 \<noteq> shape A ! 1 \<longrightarrow>
        sqrtm ops C A disp blocksize = Inl (ValueError ''expected square matrix''))
   \<and> (length (shape A) = 2 \<and> 1 \<le> blocksize \<and> shape A ! 0 = shape A ! 1 \<longrightarrow>
        validate A blocksize = None \<and> schur C A = factorise C A
        \<and> sqrtm ops C A disp blocksize = compute ops C A disp blocksize
        \<and> (\<forall>e. factorise C A = Inl e \<longrightarrow> sqrtm ops C A disp blocksize = Inl e))"
  for ops :: "('a, 'r) ops" and C :: "('a, 'r) collab"
proof -
  have dim: "sqrtm ops' C' A disp' blocksize
               = Inl (ValueError ''Non-matrix input to matrix function.'')"
    if "length (shape A) \<noteq> 2"
    for ops' :: "('a, 'r) ops" and C' :: "('a, 'r) collab" and disp'
    using that by (simp add: sqrtm_def validate_def)
  have small: "sqrtm ops' C' A disp' blocksize
                 = Inl (ValueError ''The blocksize should be at least 1.'')"
    if "length (shape A) = 2 \<and> blocksize < 1"
    for ops' :: "('a, 'r) ops" and C' :: "('a, 'r) collab" and disp'
    using that by (simp add: sqrtm_def validate_def)
  have nonsq: "sqrtm ops' C' A disp' blocksize = Inl (ValueError ''expected square matrix'')"
    if "length (shape A) = 2 \<and> 1 \<le> blocksize \<and> shape A ! 0 \<noteq> shape A ! 1"
    for ops' :: "('a, 'r) ops" and C' :: "('a, 'r) collab" and disp'
    using that by (simp add: sqrtm_def validate_def compute_def schur_def)
  have valid: "validate A blocksize = None \<and> schur C' A = factorise C' A
                 \<and> sqrtm ops' C' A disp' blocksize = compute ops' C' A disp' blocksize
                 \<and> (\<forall>e. factorise C' A = Inl e \<longrightarrow> sqrtm ops' C' A disp' blocksize = Inl e)"
    if "length (shape A) = 2 \<and> 1 \<le> blocksize \<and> shape A ! 0 = shape A ! 1"
    for ops' :: "('a, 'r) ops" and C' :: "('a, 'r) collab" and disp'
    using that by (simp add: sqrtm_def validate_def compute_def schur_def)
  have "\<exists>msg. \<forall>(ops' :: ('a, 'r) ops) (C' :: ('a, 'r) collab) disp'.
          sqrtm ops' C' A disp' blocksize = Inl (ValueError msg)"
    if inv: "length (shape A) \<noteq> 2 \<or> (length (shape A) = 2 \<and> shape A ! 0 \<noteq> shape A ! 1)
          \<or> blocksize < 1"
  proof -
    consider "length (shape A) \<noteq> 2" | "length (shape A) = 2 \<and> blocksize < 1"
      | "length (shape A) = 2 \<and> 1 \<le> blocksize \<and> shape A ! 0 \<noteq> shape A ! 1"
      using inv by fastforce
    then show ?thesis
    proof cases
      case 1
      then show ?thesis using dim by blast
    next
      case 2
      then show ?thesis using small by blast
    next
      case 3
      then show ?thesis using nonsq by blast
    qed
  qed
  moreover have False
    if all: "\<forall>(ops' :: ('a, 'r) ops) (C' :: ('a, 'r) collab) disp'.
               sqrtm ops' C' A disp' blocksize = Inl (ValueError msg)"
      and ok: "length (shape A) = 2 \<and> 1 \<le> blocksize \<and> shape A ! 0 = shape A ! 1"
    for msg
  proof -
    let ?C = "C\<lparr>factorise := \<lambda>A. Inl (LinAlgError ''Schur form not found'')\<rparr>"
    have "factorise ?C A = Inl (LinAlgError ''Schur form not found'')"
      by simp
    with valid [OF ok, of ?C ops disp]
    have "sqrtm ops ?C A disp blocksize = Inl (LinAlgError ''Schur form not found'')"
      by blast
    moreover have "sqrtm ops ?C A disp blocksize = Inl (ValueError msg)"
      using all by blast
    ultimately show False by simp
  qed
  ultimately have iff: "(\<exists>msg. \<forall>(ops' :: ('a, 'r) ops) (C' :: ('a, 'r) collab) disp'.
                            sqrtm ops' C' A disp' blocksize = Inl (ValueError msg))
                        \<longleftrightarrow> length (shape A) \<noteq> 2
                            \<or> (length (shape A) = 2 \<and> shape A ! 0 \<noteq> shape A ! 1)
                            \<or> blocksize < 1"
    by (metis not_le_imp_less)
  show ?thesis
    using iff dim small nonsq valid by blast
qed

text \<open>
  A 1-D array, the block size zero and an array of shape \<open>(2, 3)\<close> with the default
  block size are rejected; the square \<open>T2\<close> with the default block size is not.
\<close>

theorem sqrtm_rejects_invalid_witness:
  "sqrtm exact_ops triangular_collab A1d True 64
     = Inl (ValueError ''Non-matrix input to matrix function.'')
   \<and> sqrtm exact_ops triangular_collab A2x3 True 0
     = Inl (ValueError ''The blocksize should be at least 1.'')
   \<and> shape A2x3 = [2, 3]
   \<and> sqrtm exact_ops triangular_collab A2x3 True 64 = Inl (ValueError ''expected square matrix'')
   \<and> (\<exists>msg. \<forall>(ops' :: (real, real) ops) (C' :: (real, real) collab) disp'.
         sqrtm ops' C' A2x3 disp' 64 = Inl (ValueError msg))
   \<and> shape T2 = [2, 2] \<and> validate T2 64 = None
   \<and> sqrtm exact_ops triangular_collab T2 False 64 = compute exact_ops triangular_collab T2 False 64
   \<and> \<not> (\<exists>msg. \<forall>(ops' :: (real, real) ops) (C' :: (real, real) collab) disp'.
           sqrtm ops' C' T2 disp' 64 = Inl (ValueError msg))"
proof -
  have a: "length (shape A1d) \<noteq> 2"
    by (simp add: A1d_def)
  have b: "length (shape A2x3) = 2 \<and> (0::int) < 1"
    by (simp add: A2x3_def)
  have c: "length (shape A2x3) = 2 \<and> (1::int) \<le> 64 \<and> shape A2x3 ! 0 \<noteq> shape A2x3 ! 1"
    by (simp add: A2x3_def)
  have d: "length (shape T2) = 2 \<and> (1::int) \<le> 64 \<and> shape T2 ! 0 = shape T2 ! 1"
    by (simp add: T2_def)
  have e: "\<not> (length (shape T2) \<noteq> 2 \<or> (length (shape T2) = 2 \<and> shape T2 ! 0 \<noteq> shape T2 ! 1)
               \<or> (64::int) < 1)"
    by (simp add: T2_def)
  have sh: "shape A2x3 = [2, 3]" "shape T2 = [2, 2]"
    by (simp_all add: A2x3_def T2_def)
  have w1: "sqrtm exact_ops triangular_collab A1d True 64
              = Inl (ValueError ''Non-matrix input to matrix function.'')"
    using a sqrtm_rejects_invalid [where A = A1d and ops = exact_ops and C = triangular_collab
        and disp = True and blocksize = 64]
    by blast
  have w2: "sqrtm exact_ops triangular_collab A2x3 True 0
              = Inl (ValueError ''The blocksize should be at least 1.'')"
    using b sqrtm_rejects_invalid [where A = A2x3 and ops = exact_ops and C = triangular_collab
        and disp = True and blocksize = 0]
    by blast
  note inst = sqrtm_rejects_invalid [where A = A2x3 and ops = exact_ops
      and C = triangular_collab and disp = True and blocksize = 64]
  have w3: "sqrtm exact_ops triangular_collab A2x3 True 64
              = Inl (ValueError ''expected square matrix'')"
    using c inst by blast
  have w4: "\<exists>msg. \<forall>(ops' :: (real, real) ops) (C' :: (real, real) collab) disp'.
              sqrtm ops' C' A2x3 disp' 64 = Inl (ValueError msg)"
    using c inst [THEN conjunct1] by blast
  note inst' = sqrtm_rejects_invalid [where A = T2 and ops = exact_ops
      and C = triangular_collab and disp = False and blocksize = 64]
  have w5: "validate T2 64 = None"
    and w6: "sqrtm exact_ops triangular_collab T2 False 64
               = compute exact_ops triangular_collab T2 False 64"
    using d inst' by blast+
  have w7: "\<not> (\<exists>msg. \<forall>(ops' :: (real, real) ops) (C' :: (real, real) collab) disp'.
                 sqrtm ops' C' T2 disp' 64 = Inl (ValueError msg))"
    using e inst' [THEN conjunct1] by blast
  show ?thesis
    using sh w1 w2 w3 w4 w5 w6 w7 by (intro conjI)
qed

text \<open>
  C3 (the code does not do what the claim says). The claim, and the docstring of
  \<^verbatim>\<open>sqrtm\<close> (\<^verbatim>\<open>||err||_F / ||A||_F\<close>): with \<^verbatim>\<open>disp\<close> false the second component is the
  Frobenius norm of \<^verbatim>\<open>X*X - A\<close> divided by the Frobenius norm of \<^verbatim>\<open>A\<close>. The code, line
  152: the norm of the residual is squared before the division. Whenever the call
  returns, its second component is \<open>norm (X X - A) ^ 2 / norm A\<close>, with \<open>X\<close> the first
  component.
\<close>

theorem errest_squares_residual:
  assumes "sqrtm ops C A False blocksize = Inr out"
  shows "errest out = Some (r_div ops (r_pow ops (norm_fro C (sub2 ops (dot2 ops (result out)
                                                                   (result out)) A)) 2)
                                     (norm_fro C A))"
  using assms by (auto simp: sqrtm_def split: option.splits intro: compute_errest)

text \<open>
  With a square root that is not exact the two quotients differ: for \<^verbatim>\<open>A = [[2]]\<close> and
  \<open>sqrt 2\<close> rounded to \<open>1.4\<close> the residual has norm \<open>0.04\<close>, the code returns
  \<open>0.04 ^ 2 / 2 = 1 / 1250\<close>, and the quotient of the claim is \<open>0.04 / 2 = 1 / 50\<close>.
\<close>

theorem errest_squares_residual_witness:
  "\<exists>out. sqrtm rounded_ops triangular_collab A1x1 False 64 = Inr out
         \<and> item (result out) [0, 0] = 14 / 10
         \<and> errest out = Some (1 / 1250)
         \<and> r_div rounded_ops
             (norm_fro triangular_collab
                (sub2 rounded_ops (dot2 rounded_ops (result out) (result out)) A1x1))
             (norm_fro triangular_collab A1x1) = 1 / 50"
proof -
  define out where "out = \<lparr>printed = [], result = X1,
            errest = Some (r_div rounded_ops
                             (r_pow rounded_ops
                                (norm_fro triangular_collab
                                   (sub2 rounded_ops (dot2 rounded_ops X1 X1) A1x1)) 2)
                             (norm_fro triangular_collab A1x1))\<rparr>"
  have run: "sqrtm rounded_ops triangular_collab A1x1 False 64 = Inr out"
    by (simp add: out_def sqrtm_A1x1)
  have res: "result out = X1"
    by (simp add: out_def)
  from errest_squares_residual [OF run]
  have "errest out = Some (1 / 1250)"
    by (simp add: res norm_E1 norm_A1 rounded_ops_simps power2_eq_square)
  moreover have "r_div rounded_ops
             (norm_fro triangular_collab
                (sub2 rounded_ops (dot2 rounded_ops (result out) (result out)) A1x1))
             (norm_fro triangular_collab A1x1) = 1 / 50"
    by (simp add: res norm_E1 norm_A1 rounded_ops_simps)
  ultimately show ?thesis
    using run res X1_item by auto
qed

text \<open>
  C4. For a block size of at least one, the partition has
  \<open>nb = max (N div blocksize) 1\<close> blocks, at least one. The blocks are contiguous
  half-open ranges from \<open>0\<close> to \<open>N\<close>: every index below \<open>N\<close> lies in exactly one of them.
  With \<open>q = N div nb\<close> and \<open>r = N mod nb\<close>, the first \<open>nb - r\<close> blocks have size \<open>q\<close> and
  the \<open>r\<close> blocks after them have size \<open>q + 1\<close>, and the sizes add up to \<open>N\<close>. (It holds
  for \<open>N = 0\<close> as well.)
\<close>

theorem block_partition:
  assumes "1 \<le> blocksize"
  shows "let P = start_stop_pairs N blocksize;
             nb = max (N div nat blocksize) 1;
             q = N div nb;
             r = N mod nb
         in length P = nb \<and> 1 \<le> nb
            \<and> fst (P ! 0) = 0 \<and> snd (P ! (nb - 1)) = N
            \<and> (\<forall>k. Suc k < nb \<longrightarrow> snd (P ! k) = fst (P ! Suc k))
            \<and> (\<forall>k<nb. snd (P ! k) = fst (P ! k) + (if k < nb - r then q else q + 1))
            \<and> (\<forall>x<N. \<exists>!k. k < nb \<and> fst (P ! k) \<le> x \<and> x < snd (P ! k))
            \<and> length (filter (\<lambda>p. snd p - fst p = q + 1) P) = r
            \<and> length (filter (\<lambda>p. snd p - fst p = q) P) = nb - r
            \<and> sum_list (map (\<lambda>p. snd p - fst p) P) = N"
proof -
  define P where "P = start_stop_pairs N blocksize"
  define nb where "nb = max (N div nat blocksize) 1"
  define q where "q = N div nb"
  define r where "r = N mod nb"
  have nb: "nblocks N blocksize = nb"
    using assms by (simp add: nb_def nblocks_nat)
  have q: "bsmall N blocksize = q" and r: "nlarge N blocksize = r"
    by (simp_all add: bsmall_def nlarge_def nb q_def r_def)
  have ns: "nsmall N blocksize = nb - r"
    by (simp add: nsmall_def nb r)
  have nb1: "1 \<le> nb"
    by (simp add: nb_def)
  have nth: "P ! k = (offset N blocksize k, offset N blocksize (Suc k))" if "k < nb" for k
    using that by (simp add: P_def pairs_nth nb)
  have len: "length P = nb"
    by (simp add: P_def length_pairs nb)
  have first: "fst (P ! 0) = 0"
    using nb1 by (simp add: nth offset_0)
  have last: "snd (P ! (nb - 1)) = N"
    using nb1 offset_last [of N blocksize] by (simp add: nth nb)
  have contiguous: "\<forall>k. Suc k < nb \<longrightarrow> snd (P ! k) = fst (P ! Suc k)"
    by (simp add: nth)
  have sizes: "\<forall>k<nb. snd (P ! k) = fst (P ! k) + (if k < nb - r then q else q + 1)"
    by (simp add: nth offset_Suc ns q blarge_def)
  have cover: "\<forall>x<N. \<exists>!k. k < nb \<and> fst (P ! k) \<le> x \<and> x < snd (P ! k)"
  proof (intro allI impI)
    fix x
    assume "x < N"
    then have "x < offset N blocksize nb"
      using offset_last [of N blocksize] by (simp add: nb)
    then obtain k where k: "k < nb" "offset N blocksize k \<le> x" "x < offset N blocksize (Suc k)"
      using offset_cover by blast
    show "\<exists>!k. k < nb \<and> fst (P ! k) \<le> x \<and> x < snd (P ! k)"
    proof (rule ex1I [of _ k])
      show "k < nb \<and> fst (P ! k) \<le> x \<and> x < snd (P ! k)"
        using k by (simp add: nth)
    next
      fix l
      assume "l < nb \<and> fst (P ! l) \<le> x \<and> x < snd (P ! l)"
      then have "offset N blocksize l \<le> x" "x < offset N blocksize (Suc l)"
        using nth [of l] by auto
      then show "l = k"
        using k offset_unique by blast
    qed
  qed
  have P_map: "P = map (\<lambda>k. (offset N blocksize k, offset N blocksize (Suc k))) [0..<nb]"
    by (simp add: P_def start_stop_pairs_eq nb)
  have rnb: "r < nb"
    using nb1 by (simp add: r_def)
  have large: "length (filter (\<lambda>p. snd p - fst p = q + 1) P) = r"
  proof -
    have "filter (\<lambda>p. snd p - fst p = q + 1) P
            = map (\<lambda>k. (offset N blocksize k, offset N blocksize (Suc k)))
                (filter (\<lambda>k. \<not> k < nb - r) [0..<nb])"
      by (simp add: P_map filter_map comp_def block_size ns q)
    then show ?thesis
      using rnb by (simp add: count_large)
  qed
  have small: "length (filter (\<lambda>p. snd p - fst p = q) P) = nb - r"
  proof -
    have "filter (\<lambda>p. snd p - fst p = q) P
            = map (\<lambda>k. (offset N blocksize k, offset N blocksize (Suc k)))
                (filter (\<lambda>k. k < nb - r) [0..<nb])"
      by (simp add: P_map filter_map comp_def block_size ns q)
    then show ?thesis
      by (simp add: count_small)
  qed
  have total: "sum_list (map (\<lambda>p. snd p - fst p) P) = N"
    using sizes_sum [of N blocksize nb] offset_last [of N blocksize]
    by (simp add: P_map comp_def nb)
  show ?thesis
    unfolding Let_def P_def [symmetric] nb_def [symmetric] q_def [symmetric] r_def [symmetric]
    using len nb1 first last contiguous sizes cover large small total by blast
qed

text \<open>Ten indices in blocks of about three: the blocks \<open>(0, 3)\<close>, \<open>(3, 6)\<close> and
  \<open>(6, 10)\<close>, the larger one last.\<close>

theorem block_partition_witness:
  "(1::int) \<le> 3
   \<and> (let P = start_stop_pairs 10 3;
           nb = max (10 div nat 3) 1;
           q = 10 div nb;
           r = 10 mod nb
       in length P = nb \<and> 1 \<le> nb
          \<and> fst (P ! 0) = 0 \<and> snd (P ! (nb - 1)) = 10
          \<and> (\<forall>k. Suc k < nb \<longrightarrow> snd (P ! k) = fst (P ! Suc k))
          \<and> (\<forall>k<nb. snd (P ! k) = fst (P ! k) + (if k < nb - r then q else q + 1))
          \<and> (\<forall>x<10. \<exists>!k. k < nb \<and> fst (P ! k) \<le> x \<and> x < snd (P ! k))
          \<and> length (filter (\<lambda>p. snd p - fst p = q + 1) P) = r
          \<and> length (filter (\<lambda>p. snd p - fst p = q) P) = nb - r
          \<and> sum_list (map (\<lambda>p. snd p - fst p) P) = 10)
   \<and> start_stop_pairs 10 3 = [(0, 3), (3, 6), (6, 10)]"
proof -
  have h: "(1::int) \<le> 3"
    by simp
  have pairs: "start_stop_pairs 10 3 = [(0, 3), (3, 6), (6, 10)]"
    by code_simp
  show ?thesis
    using h block_partition [OF h, of 10] pairs by blast
qed

text \<open>
  C5. For \<open>T\<close> of shape \<open>(N, N)\<close> and a block size of at least one, the engine is the
  between-block phase run on the state \<open>within_phase\<close> that the seeding and the
  within-block phase leave. In the accumulator \<open>R\<close> of that state every diagonal entry
  is the square root of the diagonal entry of \<open>T\<close>, and for each block, each column \<open>j\<close>
  of the block and each row \<open>i\<close> from \<open>j - 1\<close> down to the start of the block,
  \<open>R[i,j] = (T[i,j] - s) / (R[i,i] + R[j,j])\<close>, where \<open>s\<close> is the inner product of
  \<open>R[i, i+1:j]\<close> and \<open>R[i+1:j, j]\<close> when \<open>j - i > 1\<close> and zero otherwise: no entry that the
  formula reads is assigned after it has been read. The accumulator that the engine
  returns has the same diagonal and the same entries within the blocks.
\<close>

theorem within_block_recurrence:
  assumes "shape T = [N, N]" and "1 \<le> blocksize"
  shows "let R = arr (within_phase ops T N blocksize)
         in sqrtm_triu_run ops trsyl T blocksize
              = between_blocks ops trsyl T (start_stop_pairs N blocksize) (nblocks N blocksize)
                  (within_phase ops T N blocksize)
            \<and> (\<forall>i<N. item R [i, i] = f_sqrt ops (item T [i, i]))
            \<and> (\<forall>(start, stop)\<in>set (start_stop_pairs N blocksize).
                 \<forall>j\<in>set [start..<stop]. \<forall>i\<in>set (rev [start..<j]).
                   item R [i, j]
                     = f_div ops
                         (f_sub ops (item T [i, j])
                            (if j - i > 1
                             then f_vdot ops (map (\<lambda>k. item R [i, k]) [i + 1..<j])
                                            (map (\<lambda>k. item R [k, j]) [i + 1..<j])
                             else f_zero ops))
                         (f_add ops (item R [i, i]) (item R [j, j])))
            \<and> (\<forall>s. sqrtm_triu_run ops trsyl T blocksize = Inr s \<longrightarrow>
                 (\<forall>i<N. item (arr s) [i, i] = item R [i, i])
                 \<and> (\<forall>(start, stop)\<in>set (start_stop_pairs N blocksize).
                      \<forall>j\<in>set [start..<stop]. \<forall>i\<in>set (rev [start..<j]).
                        item (arr s) [i, j] = item R [i, j]))"
proof -
  define R where "R = arr (within_phase ops T N blocksize)"
  have run: "sqrtm_triu_run ops trsyl T blocksize
              = between_blocks ops trsyl T (start_stop_pairs N blocksize) (nblocks N blocksize)
                  (within_phase ops T N blocksize)"
    using assms by (intro run_eq [of T N N]) auto
  have diag: "\<forall>i<N. item R [i, i] = f_sqrt ops (item T [i, i])"
    by (simp add: R_def within_phase_diag)
  have rec: "item R [i, j]
               = f_div ops
                   (f_sub ops (item T [i, j])
                      (if j - i > 1
                       then f_vdot ops (map (\<lambda>k. item R [i, k]) [i + 1..<j])
                                      (map (\<lambda>k. item R [k, j]) [i + 1..<j])
                       else f_zero ops))
                   (f_add ops (item R [i, i]) (item R [j, j]))"
    if "(start, stop) \<in> set (start_stop_pairs N blocksize)" "start \<le> i" "i < j" "j < stop"
    for start stop i j
  proof -
    from that(1) obtain k where "k < nblocks N blocksize"
      "start = offset N blocksize k" "stop = offset N blocksize (Suc k)"
      by (auto simp: pairs_mem)
    with that have "(i, j) \<in> set (within_order (start_stop_pairs N blocksize))"
      by (auto simp: set_within_order)
    from within_phase_fixed [OF this, of ops T] show ?thesis
      by (simp add: R_def entry_val_def corr_def row_slice_def col_slice_def)
  qed
  have kept: "item (arr s) [i, j] = item R [i, j]"
    if s: "sqrtm_triu_run ops trsyl T blocksize = Inr s"
      and c: "(i, j) \<notin> set (between_cells (start_stop_pairs N blocksize) (nblocks N blocksize))"
    for s i j
  proof -
    have "[i, j] \<notin> cell_idx ` set (between_cells (start_stop_pairs N blocksize)
                                        (nblocks N blocksize))"
      using c by (auto simp: cell_idx_def)
    with s [unfolded run] show ?thesis
      unfolding R_def by (rule between_blocks_frame)
  qed
  have kept_diag: "\<forall>i<N. item (arr s) [i, i] = item R [i, i]"
    if s: "sqrtm_triu_run ops trsyl T blocksize = Inr s" for s
    using between_above_diag(1) [of _ N blocksize] by (intro allI impI kept [OF s]) fastforce
  have kept_block: "item (arr s) [i, j] = item R [i, j]"
    if s: "sqrtm_triu_run ops trsyl T blocksize = Inr s"
      and "(start, stop) \<in> set (start_stop_pairs N blocksize)" "start \<le> i" "i < j" "j < stop"
    for s start stop i j
  proof -
    from that(2) obtain k where "k < nblocks N blocksize"
      "start = offset N blocksize k" "stop = offset N blocksize (Suc k)"
      by (auto simp: pairs_mem)
    with that have "(i, j) \<in> set (within_order (start_stop_pairs N blocksize))"
      by (auto simp: set_within_order)
    then have "(i, j) \<notin> set (between_cells (start_stop_pairs N blocksize) (nblocks N blocksize))"
      using within_between_disjoint [of N blocksize] by blast
    then show ?thesis
      by (rule kept [OF s])
  qed
  have rec': "\<forall>(start, stop)\<in>set (start_stop_pairs N blocksize).
               \<forall>j\<in>set [start..<stop]. \<forall>i\<in>set (rev [start..<j]).
                 item R [i, j]
                   = f_div ops
                       (f_sub ops (item T [i, j])
                          (if j - i > 1
                           then f_vdot ops (map (\<lambda>k. item R [i, k]) [i + 1..<j])
                                          (map (\<lambda>k. item R [k, j]) [i + 1..<j])
                           else f_zero ops))
                       (f_add ops (item R [i, i]) (item R [j, j]))"
    using rec by auto
  have kept': "\<forall>s. sqrtm_triu_run ops trsyl T blocksize = Inr s \<longrightarrow>
                 (\<forall>i<N. item (arr s) [i, i] = item R [i, i])
                 \<and> (\<forall>(start, stop)\<in>set (start_stop_pairs N blocksize).
                      \<forall>j\<in>set [start..<stop]. \<forall>i\<in>set (rev [start..<j]).
                        item (arr s) [i, j] = item R [i, j])"
    using kept_diag kept_block by auto
  show ?thesis
    unfolding Let_def R_def [symmetric]
    using run diag rec' kept' by blast
qed

text \<open>
  The upper triangular \<open>T3\<close> with rows \<open>(1, 2, 3)\<close>, \<open>(0, 4, 5)\<close>, \<open>(0, 0, 16)\<close> and one
  block: the accumulator is the square root of \<open>T3\<close>.
\<close>

theorem within_block_recurrence_witness:
  "shape T3 = [3, 3] \<and> (1::int) \<le> 3 \<and> start_stop_pairs 3 3 = [(0, 3)]
   \<and> (let R = arr (within_phase exact_ops T3 3 3)
       in item R [0, 0] = 1 \<and> item R [1, 1] = 2 \<and> item R [2, 2] = 4
          \<and> item R [0, 1] = 2 / 3 \<and> item R [1, 2] = 5 / 6 \<and> item R [0, 2] = 22 / 45)"
proof -
  define R where "R = arr (within_phase exact_ops T3 3 3)"
  have sh: "shape T3 = [3, 3]"
    by (simp add: T3_def)
  have bs: "(1::int) \<le> 3"
    by simp
  have pairs: "start_stop_pairs 3 3 = [(0, 3)]"
    by code_simp
  note inst = within_block_recurrence [OF sh bs, of exact_ops solve_scalar, unfolded Let_def,
      folded R_def]
  have diag: "\<forall>i<3. item R [i, i] = f_sqrt exact_ops (item T3 [i, i])"
    using inst by blast
  have d0: "item R [0, 0] = 1" and d1: "item R [1, 1] = 2" and d2: "item R [2, 2] = 4"
    using diag by (simp_all add: exact_ops_simps T3_def sqrt_16)
  have rec: "\<forall>j\<in>set [0..<3]. \<forall>i\<in>set (rev [0..<j]).
                   item R [i, j]
                     = f_div exact_ops
                         (f_sub exact_ops (item T3 [i, j])
                            (if j - i > 1
                             then f_vdot exact_ops (map (\<lambda>k. item R [i, k]) [i + 1..<j])
                                            (map (\<lambda>k. item R [k, j]) [i + 1..<j])
                             else f_zero exact_ops))
                         (f_add exact_ops (item R [i, i]) (item R [j, j]))"
    using inst unfolding pairs by simp
  have r01: "item R [0, 1] = 2 / 3"
    using rec [rule_format, of 1 0]
    by (simp add: exact_ops_simps T3_def d0 d1 [unfolded One_nat_def])
  have r12: "item R [1, 2] = 5 / 6"
    using rec [rule_format, of 2 1]
    by (simp add: exact_ops_simps T3_def d1 [unfolded One_nat_def] d2)
  have "[Suc 0..<2] = [1]"
    by code_simp
  then have r02: "item R [0, 2] = 22 / 45"
    using rec [rule_format, of 2 0]
    by (simp add: exact_ops_simps T3_def d0 d2 r01 [unfolded One_nat_def]
        r12 [unfolded One_nat_def])
  show ?thesis
    unfolding Let_def R_def [symmetric]
    using sh pairs d0 d1 d2 r01 r12 r02 by simp
qed

text \<open>
  C6. When the engine returns, the solver has been called for the pairs of blocks
  \<open>(i, j)\<close> in the order of increasing \<open>j\<close> and, for each \<open>j\<close>, of \<open>i\<close> decreasing from
  \<open>j - 1\<close> to \<open>0\<close>. For each of these pairs, with \<open>s0\<close> the state reached after the pairs
  before it, the solver was called on the diagonal blocks \<open>Rii\<close> and \<open>Rjj\<close> of the
  accumulator of \<open>s0\<close> and on the right-hand side \<open>S\<close>, which is the block of \<open>T\<close> in the
  rows of block \<open>i\<close> and the columns of block \<open>j\<close>, less the product of the two blocks
  of the accumulator through the blocks in between exactly when \<open>j - i > 1\<close>; and the
  entries of the returned accumulator in the rows of block \<open>i\<close> and the columns of block
  \<open>j\<close> are the entries of the solution \<open>x\<close> multiplied by the returned scale.
\<close>

theorem between_block_solve:
  assumes "shape T = [N, N]" and "1 \<le> blocksize"
    and "sqrtm_triu_run ops trsyl T blocksize = Inr s"
  shows "solves s = concat (map (\<lambda>j. map (\<lambda>i. (i, j)) (rev [0..<j])) [0..<nblocks N blocksize])
         \<and> (\<forall>before i j after.
               solves s = before @ (i, j) # after \<longrightarrow>
               (\<exists>s0 x scale info.
                  fold_err (\<lambda>p. between_pair ops trsyl T (start_stop_pairs N blocksize) (snd p) (fst p))
                    before (within_phase ops T N blocksize) = Inr s0
                  \<and> (case (start_stop_pairs N blocksize ! i, start_stop_pairs N blocksize ! j) of
                       ((istart, istop), (jstart, jstop)) \<Rightarrow>
                         trsyl (slice2 (arr s0) istart istop istart istop)
                               (slice2 (arr s0) jstart jstop jstart jstop)
                               (if j - i > 1
                                then sub2 ops (slice2 T istart istop jstart jstop)
                                       (dot2 ops (slice2 (arr s0) istart istop istop jstart)
                                                 (slice2 (arr s0) istop jstart jstart jstop))
                                else slice2 T istart istop jstart jstop)
                           = Inr (x, scale, info)
                         \<and> (\<forall>a\<in>set [istart..<istop]. \<forall>b\<in>set [jstart..<jstop].
                              item (arr s) [a, b]
                                = f_scale ops (item x [a - istart, b - jstart]) scale))))"
proof -
  let ?P = "start_stop_pairs N blocksize"
  let ?step = "\<lambda>p. between_pair ops trsyl T ?P (snd p) (fst p)"
  have bs: "blocksize \<noteq> 0"
    using assms(2) by simp
  have order: "solves s = between_order (nblocks N blocksize)"
    using assms(1) bs assms(3) by (rule run_solves)
  have run: "fold_err ?step (between_order (nblocks N blocksize)) (within_phase ops T N blocksize)
               = Inr s"
    using assms(3) by (simp add: run_eq [OF assms(1) bs] between_blocks_flat)
  have step: "\<exists>s0 x scale info.
                fold_err ?step before (within_phase ops T N blocksize) = Inr s0
                \<and> (case (?P ! i, ?P ! j) of
                     ((istart, istop), (jstart, jstop)) \<Rightarrow>
                       trsyl (slice2 (arr s0) istart istop istart istop)
                             (slice2 (arr s0) jstart jstop jstart jstop)
                             (if j - i > 1
                              then sub2 ops (slice2 T istart istop jstart jstop)
                                     (dot2 ops (slice2 (arr s0) istart istop istop jstart)
                                               (slice2 (arr s0) istop jstart jstart jstop))
                              else slice2 T istart istop jstart jstop)
                         = Inr (x, scale, info)
                       \<and> (\<forall>a\<in>set [istart..<istop]. \<forall>b\<in>set [jstart..<jstop].
                            item (arr s) [a, b]
                              = f_scale ops (item x [a - istart, b - jstart]) scale))"
    if split: "solves s = before @ (i, j) # after" for before i j after
  proof -
    have ord: "between_order (nblocks N blocksize) = before @ (i, j) # after"
      using split order by simp
    from run obtain s0 s1 where s0: "fold_err ?step before (within_phase ops T N blocksize) = Inr s0"
      and s1: "between_pair ops trsyl T ?P j i s0 = Inr s1"
      and s: "fold_err ?step after s1 = Inr s"
      by (auto simp: ord fold_err_append split: sum.splits)
    from between_pair_stores [OF s1] obtain x scale info where
      z: "trsyl (slice2 (arr s0) (fst (?P ! i)) (snd (?P ! i)) (fst (?P ! i)) (snd (?P ! i)))
            (slice2 (arr s0) (fst (?P ! j)) (snd (?P ! j)) (fst (?P ! j)) (snd (?P ! j)))
            (rhs_block ops T (arr s0) (j - i > 1) (?P ! i) (?P ! j)) = Inr (x, scale, info)"
      and stored: "\<forall>a\<in>set [fst (?P ! i)..<snd (?P ! i)]. \<forall>b\<in>set [fst (?P ! j)..<snd (?P ! j)].
             item (arr s1) [a, b] = f_scale ops (item x [a - fst (?P ! i), b - fst (?P ! j)]) scale"
      by blast
    have kept: "item (arr s) [a, b] = item (arr s1) [a, b]"
      if "a \<in> set [fst (?P ! i)..<snd (?P ! i)]" "b \<in> set [fst (?P ! j)..<snd (?P ! j)]" for a b
    proof -
      have "(a, b) \<in> set (block_cells (?P ! i) (?P ! j))"
        using that by (simp add: set_block_cells)
      then have "(a, b) \<notin> set (concat (map (\<lambda>p. block_cells (?P ! fst p) (?P ! snd p)) after))"
        using suffix_cells_disjoint [OF ord] by auto
      then have "[a, b] \<notin> cell_idx ` set (concat (map (\<lambda>p. block_cells (?P ! fst p) (?P ! snd p)) after))"
        by (auto simp: cell_idx_def)
      with s show ?thesis
        by (rule pairs_frame)
    qed
    have final: "\<forall>a\<in>set [fst (?P ! i)..<snd (?P ! i)]. \<forall>b\<in>set [fst (?P ! j)..<snd (?P ! j)].
             item (arr s) [a, b] = f_scale ops (item x [a - fst (?P ! i), b - fst (?P ! j)]) scale"
      using stored kept by simp
    have z': "trsyl (slice2 (arr s0) (fst (?P ! i)) (snd (?P ! i)) (fst (?P ! i)) (snd (?P ! i)))
            (slice2 (arr s0) (fst (?P ! j)) (snd (?P ! j)) (fst (?P ! j)) (snd (?P ! j)))
            (if j - i > 1
             then sub2 ops (slice2 T (fst (?P ! i)) (snd (?P ! i)) (fst (?P ! j)) (snd (?P ! j)))
                    (dot2 ops (slice2 (arr s0) (fst (?P ! i)) (snd (?P ! i)) (snd (?P ! i)) (fst (?P ! j)))
                              (slice2 (arr s0) (snd (?P ! i)) (fst (?P ! j)) (fst (?P ! j)) (snd (?P ! j))))
             else slice2 T (fst (?P ! i)) (snd (?P ! i)) (fst (?P ! j)) (snd (?P ! j)))
          = Inr (x, scale, info)"
      using z by (simp add: rhs_block_def Let_def)
    show ?thesis
      unfolding case_prod_beta fst_conv snd_conv
      using s0 z' final by blast
  qed
  show ?thesis
    using order step unfolding between_order_def by blast
qed

text \<open>
  \<open>T3\<close> with blocks of size one: three calls of the solver, and the entry \<open>[0, 1]\<close> is
  \<open>2 / (1 + 2)\<close>.
\<close>

theorem between_block_solve_witness:
  "\<exists>s. shape T3 = [3, 3] \<and> (1::int) \<le> 1
       \<and> sqrtm_triu_run exact_ops solve_scalar T3 1 = Inr s
       \<and> solves s = [(0, 1), (1, 2), (0, 2)]
       \<and> item (arr s) [0, 1] = 2 / 3"
proof -
  from T3_run obtain s where run: "sqrtm_triu_run exact_ops solve_scalar T3 1 = Inr s"
    by blast
  have sh: "shape T3 = [3, 3]"
    by (simp add: T3_def)
  have bs: "(1::int) \<le> 1"
    by simp
  note inst = between_block_solve [OF sh bs run]
  have order: "solves s = [(0, 1), (1, 2), (0, 2)]"
    using inst by (simp add: between_order_3)
  then have split: "solves s = [] @ (0, 1) # [(1, 2), (0, 2)]"
    by simp
  from inst [THEN conjunct2, rule_format, OF split]
  obtain x scale info where
    z: "solve_scalar (slice2 (arr (within_phase exact_ops T3 3 1)) 0 1 0 1)
          (slice2 (arr (within_phase exact_ops T3 3 1)) 1 2 1 2)
          (slice2 T3 0 1 1 2) = Inr (x, scale, info)"
    and stored: "\<forall>a\<in>set [0..<1]. \<forall>b\<in>set [1..<2].
          item (arr s) [a, b] = f_scale exact_ops (item x [a - 0, b - 1]) scale"
    by (auto simp: pairs_3_1)
  have d0: "item (arr (within_phase exact_ops T3 3 1)) [0, 0] = 1"
    by (simp add: within_phase_diag exact_ops_simps T3_def)
  have d1: "item (arr (within_phase exact_ops T3 3 1)) [1, 1] = 2"
    using within_phase_diag [of 1 3 exact_ops T3 1] by (simp add: exact_ops_simps T3_def)
  have t01: "item T3 [0, Suc 0] = 2"
    by (simp add: T3_def)
  from z have x: "item x [0, 0] = 2 / 3" and sc: "scale = 1"
    by (auto simp: solve_scalar_def slice2_def d0 d1 [unfolded One_nat_def] t01)
  from stored have "item (arr s) [0, 1] = f_scale exact_ops (item x [0, 0]) scale"
    by simp
  then have "item (arr s) [0, 1] = 2 / 3"
    by (simp add: x sc exact_ops_simps)
  with sh run order show ?thesis
    by (intro exI [of _ s]) simp
qed

text \<open>
  C7. For a block size of at least one and every \<open>N\<close>, zero included, the test of line
  61 is false: \<open>nsmall * bsmall + nlarge * blarge\<close> is \<open>N\<close>. The engine never takes the
  branch that raises the internal inconsistency: on a \<open>T\<close> of shape \<open>(N, N)\<close> it is the
  three phases one after the other.
\<close>

theorem partition_check_never_fails:
  assumes "1 \<le> blocksize"
  shows "\<not> inconsistent N blocksize
         \<and> nsmall N blocksize * bsmall N blocksize + nlarge N blocksize * blarge N blocksize = N
         \<and> (shape T = [N, N] \<longrightarrow>
              sqrtm_triu_run ops trsyl T blocksize
                = between_blocks ops trsyl T (start_stop_pairs N blocksize) (nblocks N blocksize)
                    (within_blocks ops T (start_stop_pairs N blocksize)
                       (seed_diag ops T N \<lparr>arr = zeros ops N, writes = [], solves = []\<rparr>)))"
proof -
  have "blocksize \<noteq> 0"
    using assms by simp
  then have "sqrtm_triu_run ops trsyl T blocksize
               = between_blocks ops trsyl T (start_stop_pairs N blocksize) (nblocks N blocksize)
                   (within_blocks ops T (start_stop_pairs N blocksize)
                      (seed_diag ops T N \<lparr>arr = zeros ops N, writes = [], solves = []\<rparr>))"
    if "shape T = [N, N]"
    using that by (simp add: run_eq [of T N N] within_phase_def seeded_def)
  then show ?thesis
    by (simp add: inconsistent_def partition_total)
qed

text \<open>The default block size on \<open>T3\<close>, on the empty input, and a hundred indices in
  blocks of about seven.\<close>

theorem partition_check_never_fails_witness:
  "(1::int) \<le> 64 \<and> shape T3 = [3, 3]
   \<and> \<not> inconsistent 3 64
   \<and> nsmall 3 64 * bsmall 3 64 + nlarge 3 64 * blarge 3 64 = 3
   \<and> sqrtm_triu_run exact_ops solve_scalar T3 64
       = between_blocks exact_ops solve_scalar T3 (start_stop_pairs 3 64) (nblocks 3 64)
           (within_blocks exact_ops T3 (start_stop_pairs 3 64)
              (seed_diag exact_ops T3 3 \<lparr>arr = zeros exact_ops 3, writes = [], solves = []\<rparr>))
   \<and> \<not> inconsistent 0 64 \<and> \<not> inconsistent 100 7"
proof -
  have bs: "(1::int) \<le> 64" and bs': "(1::int) \<le> 7"
    by simp_all
  have sh: "shape T3 = [3, 3]"
    by (simp add: T3_def)
  show ?thesis
    using bs sh
      partition_check_never_fails [OF bs, where N = 3 and T = T3 and ops = exact_ops
        and trsyl = solve_scalar]
      partition_check_never_fails [OF bs, where N = 0 and T = T3 and ops = exact_ops
        and trsyl = solve_scalar]
      partition_check_never_fails [OF bs', where N = 100 and T = T3 and ops = exact_ops
        and trsyl = solve_scalar]
    by blast
qed

text \<open>
  C8. For \<open>T\<close> of shape \<open>(N, N)\<close> and a block size of at least one, the engine
  returns whenever every call of the solver returns an array of the shape of its third
  argument. When the engine returns: the accumulator has the shape \<open>(N, N)\<close>; the
  assignments it has received are
  those of the seeding, then those of the within-block phase, then those of the
  between-block phase; no entry below the diagonal is among them, and each of these
  entries is the zero of the initial array; every entry on or above the diagonal is
  among them exactly once.
\<close>

theorem accumulator_written_once:
  assumes "shape T = [N, N]" and "1 \<le> blocksize"
  shows "((\<forall>Rii Rjj S. \<exists>x scale info.
             trsyl Rii Rjj S = Inr (x, scale, info) \<and> shape x = shape S) \<longrightarrow>
          (\<exists>s. sqrtm_triu_run ops trsyl T blocksize = Inr s))
         \<and> (\<forall>s. sqrtm_triu_run ops trsyl T blocksize = Inr s \<longrightarrow>
              sqrtm_triu ops trsyl T blocksize = Inr (arr s)
              \<and> shape (arr s) = [N, N]
              \<and> writes s = diag_cells N @ within_order (start_stop_pairs N blocksize)
                             @ between_cells (start_stop_pairs N blocksize) (nblocks N blocksize)
              \<and> (\<forall>i j. j < i \<longrightarrow>
                     count_list (writes s) (i, j) = 0 \<and> item (arr s) [i, j] = f_zero ops)
              \<and> (\<forall>i j. i \<le> j \<and> j < N \<longrightarrow> count_list (writes s) (i, j) = 1))"
proof -
  have bs: "blocksize \<noteq> 0"
    using assms(2) by simp
  have returns: "\<exists>s. sqrtm_triu_run ops trsyl T blocksize = Inr s"
    if "\<forall>Rii Rjj S. \<exists>x scale info. trsyl Rii Rjj S = Inr (x, scale, info) \<and> shape x = shape S"
    using assms(1) bs that by (intro run_returns [of T N N]) auto
  have props: "sqrtm_triu ops trsyl T blocksize = Inr (arr s)
        \<and> shape (arr s) = [N, N]
        \<and> writes s = diag_cells N @ within_order (start_stop_pairs N blocksize)
                       @ between_cells (start_stop_pairs N blocksize) (nblocks N blocksize)
        \<and> (\<forall>i j. j < i \<longrightarrow>
               count_list (writes s) (i, j) = 0 \<and> item (arr s) [i, j] = f_zero ops)
        \<and> (\<forall>i j. i \<le> j \<and> j < N \<longrightarrow> count_list (writes s) (i, j) = 1)"
    if run: "sqrtm_triu_run ops trsyl T blocksize = Inr s" for s
  proof -
  have w: "writes s = write_order N blocksize"
    using assms(1) bs run by (rule run_writes)
  have below: "count_list (writes s) (i, j) = 0 \<and> item (arr s) [i, j] = f_zero ops"
    if "j < i" for i j
  proof -
    have "(i, j) \<notin> set (write_order N blocksize)"
      using that by (simp add: set_write_order)
    then show ?thesis
      using run_unwritten [OF assms(1) bs run] by (simp add: w count_list_0_iff)
  qed
  have above: "count_list (writes s) (i, j) = 1" if "i \<le> j \<and> j < N" for i j
  proof -
    have "(i, j) \<in> set (write_order N blocksize)"
      using that by (simp add: set_write_order)
    then show ?thesis
      using distinct_write_order by (simp add: w distinct_count_list)
  qed
    show ?thesis
      using run run_shape [OF assms(1) bs run] w below above
      by (simp add: sqrtm_triu_def write_order_def)
  qed
  show ?thesis
    using returns props by blast
qed

text \<open>\<open>T3\<close> with blocks of size one: six assignments, one for each entry on or above the
  diagonal.\<close>

theorem accumulator_written_once_witness:
  "\<exists>s. shape T3 = [3, 3] \<and> (1::int) \<le> 1
       \<and> sqrtm_triu_run exact_ops solve_scalar T3 1 = Inr s
       \<and> sqrtm_triu exact_ops solve_scalar T3 1 = Inr (arr s)
       \<and> shape (arr s) = [3, 3]
       \<and> writes s = [(0, 0), (1, 1), (2, 2), (0, 1), (1, 2), (0, 2)]
       \<and> (\<forall>i j. j < i \<longrightarrow> count_list (writes s) (i, j) = 0 \<and> item (arr s) [i, j] = f_zero exact_ops)
       \<and> (\<forall>i j. i \<le> j \<and> j < 3 \<longrightarrow> count_list (writes s) (i, j) = 1)"
proof -
  have sh: "shape T3 = [3, 3]"
    by (simp add: T3_def)
  have bs: "(1::int) \<le> 1"
    by simp
  note inst = accumulator_written_once [OF sh bs, of solve_scalar exact_ops]
  from inst [THEN conjunct1] solve_scalar_shape
  obtain s where run: "sqrtm_triu_run exact_ops solve_scalar T3 1 = Inr s"
    by blast
  note props = inst [THEN conjunct2, rule_format, OF run]
  have w: "writes s = [(0, 0), (1, 1), (2, 2), (0, 1), (1, 2), (0, 2)]"
    using props write_order_3_1 by simp
  show ?thesis
    using sh bs run props w by blast
qed

text \<open>
  C9, as stated, fails where it says that the between-block phase performs zero
  iterations. With one block the loop of line 82 runs once, for \<open>j = 0\<close>: line 83 reads
  the pair of the block, and the loop of line 84 over the earlier blocks is empty.
\<close>

theorem single_block_outer_loop_runs:
  "shape T3 = [3, 3] \<and> (1::nat) \<le> 3 \<and> int 3 \<le> 64
   \<and> nblocks 3 64 = 1
   \<and> [0..<nblocks 3 64] = [0]
   \<and> [0..<nblocks 3 64] \<noteq> []"
proof -
  have "nblocks 3 64 = 1"
    by (rule nblocks_one) simp_all
  then show ?thesis
    by (simp add: T3_def)
qed

text \<open>
  C9, amended. For \<open>T\<close> of shape \<open>(N, N)\<close> with \<open>N\<close> at least one and a block size of at
  least \<open>N\<close>, the block count is exactly one and the block is \<open>(0, N)\<close>; the outer loop of
  the between-block phase runs once, for \<open>j = 0\<close>, with an empty inner loop, so that no
  pair of blocks is processed and the solver is never called. The engine returns, and
  what it returns does not depend on the solver: it is the accumulator that the
  seeding and the within-block phase of the block \<open>(0, N)\<close> leave. Its diagonal entries
  are the square roots of those of \<open>T\<close>, every entry above the diagonal satisfies the
  within-block recurrence \<open>R[i,j] = (T[i,j] - s) / (R[i,i] + R[j,j])\<close> with \<open>s\<close> the inner
  product of \<open>R[i, i+1:j]\<close> and \<open>R[i+1:j, j]\<close> when \<open>j - i > 1\<close> and zero otherwise, and
  every entry below the diagonal is zero.
\<close>

theorem single_block_result:
  assumes "shape T = [N, N]" and "1 \<le> N" and "int N \<le> blocksize"
  shows "nblocks N blocksize = 1
         \<and> start_stop_pairs N blocksize = [(0, N)]
         \<and> [0..<nblocks N blocksize] = [0]
         \<and> between_order (nblocks N blocksize) = []
         \<and> (\<forall>trsyl'. sqrtm_triu ops trsyl' T blocksize = sqrtm_triu ops trsyl T blocksize)
         \<and> (\<exists>s. sqrtm_triu_run ops trsyl T blocksize = Inr s
                \<and> sqrtm_triu ops trsyl T blocksize = Inr (arr s)
                \<and> s = within_block ops T (0, N)
                        (seed_diag ops T N \<lparr>arr = zeros ops N, writes = [], solves = []\<rparr>)
                \<and> solves s = []
                \<and> writes s = diag_cells N @ tri_cells (0, N)
                \<and> shape (arr s) = [N, N]
                \<and> (\<forall>i<N. item (arr s) [i, i] = f_sqrt ops (item T [i, i]))
                \<and> (\<forall>j\<in>set [0..<N]. \<forall>i\<in>set (rev [0..<j]).
                     item (arr s) [i, j]
                       = f_div ops
                           (f_sub ops (item T [i, j])
                              (if j - i > 1
                               then f_vdot ops (map (\<lambda>k. item (arr s) [i, k]) [i + 1..<j])
                                              (map (\<lambda>k. item (arr s) [k, j]) [i + 1..<j])
                               else f_zero ops))
                           (f_add ops (item (arr s) [i, i]) (item (arr s) [j, j])))
                \<and> (\<forall>i j. j < i \<longrightarrow> item (arr s) [i, j] = f_zero ops))"
proof -
  define s where "s = within_phase ops T N blocksize"
  have nb: "nblocks N blocksize = 1"
    using assms(2,3) by (rule nblocks_one)
  have pairs: "start_stop_pairs N blocksize = [(0, N)]"
    using nb by (rule single_pair)
  have bs: "blocksize \<noteq> 0"
    using assms(2,3) by linarith
  have outer: "[0..<nblocks N blocksize] = [0]"
    by (simp add: nb)
  have none: "between_order (nblocks N blocksize) = []"
    by (simp add: nb between_order_def)
  have run: "sqrtm_triu_run ops z T blocksize = Inr s" for z :: "('a, 'b) solver"
    by (simp add: s_def run_eq [OF assms(1) bs] nb between_blocks_one)
  have triu: "sqrtm_triu ops z T blocksize = Inr (arr s)" for z :: "('a, 'b) solver"
    by (simp add: sqrtm_triu_def run)
  have same: "\<forall>trsyl'. sqrtm_triu ops trsyl' T blocksize = sqrtm_triu ops trsyl T blocksize"
    by (simp add: triu)
  have code: "s = within_block ops T (0, N)
                    (seed_diag ops T N \<lparr>arr = zeros ops N, writes = [], solves = []\<rparr>)"
    by (simp add: s_def within_phase_def pairs within_blocks_def seeded_def)
  have sol: "solves s = []"
    by (simp add: s_def within_phase_solves)
  have wr: "writes s = diag_cells N @ tri_cells (0, N)"
    by (simp add: s_def within_phase_writes pairs within_order_def)
  have sh: "shape (arr s) = [N, N]"
    by (simp add: s_def within_phase_shape)
  have diag: "\<forall>i<N. item (arr s) [i, i] = f_sqrt ops (item T [i, i])"
    by (simp add: s_def within_phase_diag)
  have mem: "(i, j) \<in> set (within_order (start_stop_pairs N blocksize))" if "i < j" "j < N" for i j
    using that by (simp add: pairs within_order_def set_tri_cells)
  have rec: "\<forall>j\<in>set [0..<N]. \<forall>i\<in>set (rev [0..<j]).
               item (arr s) [i, j]
                 = f_div ops
                     (f_sub ops (item T [i, j])
                        (if j - i > 1
                         then f_vdot ops (map (\<lambda>k. item (arr s) [i, k]) [i + 1..<j])
                                        (map (\<lambda>k. item (arr s) [k, j]) [i + 1..<j])
                         else f_zero ops))
                     (f_add ops (item (arr s) [i, i]) (item (arr s) [j, j]))"
  proof (intro ballI)
    fix j i
    assume "j \<in> set [0..<N]" "i \<in> set (rev [0..<j])"
    then have "(i, j) \<in> set (within_order (start_stop_pairs N blocksize))"
      by (intro mem) simp_all
    from within_phase_fixed [OF this, of ops T]
    show "item (arr s) [i, j]
            = f_div ops
                (f_sub ops (item T [i, j])
                   (if j - i > 1
                    then f_vdot ops (map (\<lambda>k. item (arr s) [i, k]) [i + 1..<j])
                                   (map (\<lambda>k. item (arr s) [k, j]) [i + 1..<j])
                    else f_zero ops))
                (f_add ops (item (arr s) [i, i]) (item (arr s) [j, j]))"
      by (simp add: s_def entry_val_def corr_def row_slice_def col_slice_def)
  qed
  have below: "\<forall>i j. j < i \<longrightarrow> item (arr s) [i, j] = f_zero ops"
  proof (intro allI impI)
    fix i j :: nat
    assume "j < i"
    then have "(i, j) \<notin> set (within_order (start_stop_pairs N blocksize))"
      using within_above_diag(1) [of "(i, j)" N blocksize] by auto
    then have "item (arr s) [i, j] = item (arr (seeded ops T N)) [i, j]"
      unfolding s_def by (rule within_phase_frame)
    with \<open>j < i\<close> show "item (arr s) [i, j] = f_zero ops"
      by (simp add: seeded_item)
  qed
  have "\<exists>s. sqrtm_triu_run ops trsyl T blocksize = Inr s
            \<and> sqrtm_triu ops trsyl T blocksize = Inr (arr s)
            \<and> s = within_block ops T (0, N)
                    (seed_diag ops T N \<lparr>arr = zeros ops N, writes = [], solves = []\<rparr>)
            \<and> solves s = []
            \<and> writes s = diag_cells N @ tri_cells (0, N)
            \<and> shape (arr s) = [N, N]
            \<and> (\<forall>i<N. item (arr s) [i, i] = f_sqrt ops (item T [i, i]))
            \<and> (\<forall>j\<in>set [0..<N]. \<forall>i\<in>set (rev [0..<j]).
                 item (arr s) [i, j]
                   = f_div ops
                       (f_sub ops (item T [i, j])
                          (if j - i > 1
                           then f_vdot ops (map (\<lambda>k. item (arr s) [i, k]) [i + 1..<j])
                                          (map (\<lambda>k. item (arr s) [k, j]) [i + 1..<j])
                           else f_zero ops))
                       (f_add ops (item (arr s) [i, i]) (item (arr s) [j, j])))
            \<and> (\<forall>i j. j < i \<longrightarrow> item (arr s) [i, j] = f_zero ops)"
    using run [of trsyl] triu [of trsyl] code sol wr sh diag rec below
    by (intro exI [of _ s] conjI)
  with nb pairs outer none same show ?thesis
    by (intro conjI)
qed

text \<open>
  \<open>T3\<close> with the default block size: the engine returns the square root of \<open>T3\<close>, with
  the solver never called.
\<close>

theorem single_block_result_witness:
  "shape T3 = [3, 3] \<and> (1::nat) \<le> 3 \<and> int 3 \<le> 64
   \<and> nblocks 3 64 = 1 \<and> start_stop_pairs 3 64 = [(0, 3)]
   \<and> (\<exists>s. sqrtm_triu_run exact_ops solve_scalar T3 64 = Inr s
          \<and> sqrtm_triu exact_ops solve_scalar T3 64 = Inr (arr s)
          \<and> solves s = []
          \<and> item (arr s) [0, 0] = 1 \<and> item (arr s) [1, 1] = 2 \<and> item (arr s) [2, 2] = 4
          \<and> item (arr s) [0, 1] = 2 / 3 \<and> item (arr s) [1, 2] = 5 / 6
          \<and> item (arr s) [0, 2] = 22 / 45
          \<and> item (arr s) [1, 0] = 0 \<and> item (arr s) [2, 0] = 0 \<and> item (arr s) [2, 1] = 0)"
proof -
  have sh: "shape T3 = [3, 3]"
    by (simp add: T3_def)
  have n: "(1::nat) \<le> 3"
    by simp
  have bs: "int 3 \<le> 64"
    by simp
  note inst = single_block_result [OF sh n bs, of exact_ops solve_scalar]
  have nb: "nblocks 3 64 = 1" and pairs: "start_stop_pairs 3 64 = [(0, 3)]"
    using inst by blast+
  from inst obtain s where run: "sqrtm_triu_run exact_ops solve_scalar T3 64 = Inr s"
    and triu: "sqrtm_triu exact_ops solve_scalar T3 64 = Inr (arr s)"
    and sol: "solves s = []"
    and diag: "\<forall>i<3. item (arr s) [i, i] = f_sqrt exact_ops (item T3 [i, i])"
    and rec: "\<forall>j\<in>set [0..<3]. \<forall>i\<in>set (rev [0..<j]).
                item (arr s) [i, j]
                  = f_div exact_ops
                      (f_sub exact_ops (item T3 [i, j])
                         (if j - i > 1
                          then f_vdot exact_ops (map (\<lambda>k. item (arr s) [i, k]) [i + 1..<j])
                                               (map (\<lambda>k. item (arr s) [k, j]) [i + 1..<j])
                          else f_zero exact_ops))
                      (f_add exact_ops (item (arr s) [i, i]) (item (arr s) [j, j]))"
    and below: "\<forall>i j. j < i \<longrightarrow> item (arr s) [i, j] = f_zero exact_ops"
    by blast
  have d0: "item (arr s) [0, 0] = 1" and d1: "item (arr s) [1, 1] = 2"
    and d2: "item (arr s) [2, 2] = 4"
    using diag by (simp_all add: exact_ops_simps T3_def sqrt_16)
  have r01: "item (arr s) [0, 1] = 2 / 3"
    using rec [rule_format, of 1 0]
    by (simp add: exact_ops_simps T3_def d0 d1 [unfolded One_nat_def])
  have r12: "item (arr s) [1, 2] = 5 / 6"
    using rec [rule_format, of 2 1]
    by (simp add: exact_ops_simps T3_def d1 [unfolded One_nat_def] d2)
  have "[Suc 0..<2] = [1]"
    by code_simp
  then have r02: "item (arr s) [0, 2] = 22 / 45"
    using rec [rule_format, of 2 0]
    by (simp add: exact_ops_simps T3_def d0 d2 r01 [unfolded One_nat_def]
        r12 [unfolded One_nat_def])
  have z: "item (arr s) [1, 0] = 0" "item (arr s) [2, 0] = 0" "item (arr s) [2, 1] = 0"
    using below by (simp_all add: exact_ops_simps)
  show ?thesis
    using sh nb pairs run triu sol d0 d1 d2 r01 r12 r02 z
    by (intro conjI exI [of _ s]) simp_all
qed

text \<open>
  C10, as stated, fails where it says that no loop body executes. For \<open>N = 0\<close> the
  loop of lines 68 to 70 runs once, for the one small block of size zero, and appends
  \<open>(0, 0)\<close>; the loop of line 73 then runs once over this pair, and the loop of line 82
  once for \<open>j = 0\<close>.
\<close>

theorem empty_input_loops_run:
  "nsmall 0 64 = 1 \<and> nlarge 0 64 = 0
   \<and> start_stop_pairs 0 64 = [(0, 0)]
   \<and> [0..<nblocks 0 64] = [0]
   \<and> \<not> (nsmall 0 64 = 0 \<and> start_stop_pairs 0 64 = [] \<and> [0..<nblocks 0 64] = [])"
  by (simp add: nsmall_def nlarge_def nblocks_zero single_pair)

text \<open>
  C10, amended. For the empty input of shape \<open>(0, 0)\<close> and a block size of at least
  one the engine runs without error and returns the array of shape \<open>(0, 0)\<close>: the test
  of line 61 is false, the partition is the single empty block \<open>(0, 0)\<close>, the loops over
  the blocks run once each with empty inner loops, no entry is assigned and the solver
  is not called.
\<close>

theorem empty_input:
  assumes "shape T = [0, 0]" and "1 \<le> blocksize"
  shows "sqrtm_triu_run ops trsyl T blocksize
           = Inr \<lparr>arr = zeros ops 0, writes = [], solves = []\<rparr>
         \<and> sqrtm_triu ops trsyl T blocksize = Inr (zeros ops 0)
         \<and> shape (zeros ops 0) = [0, 0]
         \<and> \<not> inconsistent 0 blocksize
         \<and> start_stop_pairs 0 blocksize = [(0, 0)]
         \<and> nblocks 0 blocksize = 1
         \<and> tri_cells (0, 0) = []
         \<and> between_order 1 = []"
proof -
  have bs: "blocksize \<noteq> 0"
    using assms(2) by simp
  have pairs: "start_stop_pairs 0 blocksize = [(0, 0)]"
    using nblocks_zero by (rule single_pair)
  have run: "sqrtm_triu_run ops trsyl T blocksize
               = Inr \<lparr>arr = zeros ops 0, writes = [], solves = []\<rparr>"
    by (simp add: run_eq [OF assms(1) bs] nblocks_zero pairs between_blocks_one within_phase_def
        within_blocks_def within_block_def seeded_def seed_diag_def)
  show ?thesis
    using run pairs
    by (simp add: sqrtm_triu_def zeros_def inconsistent_def partition_total nblocks_zero
        tri_cells_def between_order_def)
qed

text \<open>The empty array \<open>T0\<close> with the default block size.\<close>

theorem empty_input_witness:
  "shape T0 = [0, 0] \<and> (1::int) \<le> 64
   \<and> sqrtm_triu_run exact_ops solve_scalar T0 64
       = Inr \<lparr>arr = zeros exact_ops 0, writes = [], solves = []\<rparr>
   \<and> sqrtm_triu exact_ops solve_scalar T0 64 = Inr (zeros exact_ops 0)
   \<and> shape (zeros exact_ops 0) = [0, 0]
   \<and> \<not> inconsistent 0 64
   \<and> start_stop_pairs 0 64 = [(0, 0)]
   \<and> nblocks 0 64 = 1
   \<and> tri_cells (0, 0) = []
   \<and> between_order 1 = []"
proof -
  have sh: "shape T0 = [0, 0]"
    by (simp add: T0_def)
  have bs: "(1::int) \<le> 64"
    by simp
  from empty_input [OF sh bs, of exact_ops solve_scalar] sh bs show ?thesis
    by blast
qed

end
